theory Spec2Isabelle
  imports Complex_Main
begin

section \<open>Top-N selection: \<open>get_top\<close> of cp_sampler.py\<close>

text \<open>
  The selector keeps two parallel Python lists, the values found so far and the
  positions they came from. Values are compared with \<open><\<close> and \<open>>\<close> only, so
  the element type is any linear order; \<open>num_values\<close> is a Python integer and
  may be zero or negative.
\<close>

text \<open>Python's \<open>list.insert(j, x)\<close> for \<open>0 \<le> j \<le> len\<close>.\<close>

definition list_insert :: "nat \<Rightarrow> 'a \<Rightarrow> 'a list \<Rightarrow> 'a list" where
  "list_insert j x xs = take j xs @ x # drop j xs"

text \<open>
  The inner loop \<open>for j in range(len(top_value_list))\<close>: the first position
  whose entry is strictly below \<open>value\<close>, counted from \<open>j\<close>; \<open>None\<close> when
  the loop runs to its end without reaching \<open>break\<close>.
\<close>

fun find_pos :: "'a::linorder \<Rightarrow> 'a list \<Rightarrow> nat \<Rightarrow> nat option" where
  "find_pos v [] j = None"
| "find_pos v (t # ts) j = (if v > t then Some j else find_pos v ts (Suc j))"

text \<open>
  One pass of the outer loop body, for position \<open>i\<close> holding \<open>value\<close>. The
  list is not empty where \<open>top_value_list[-1]\<close> is read and where \<open>pop(-1)\<close> is
  called, so neither can raise.
\<close>

definition get_top_step ::
  "int \<Rightarrow> 'a::linorder list \<times> nat list \<Rightarrow> nat \<Rightarrow> 'a \<Rightarrow> 'a list \<times> nat list" where
  "get_top_step num_values st i v =
     (let top_value_list = fst st; top_index_list = snd st in
      if length top_value_list = 0 then (top_value_list @ [v], top_index_list @ [i])
      else if v < last top_value_list \<and> int (length top_value_list) = num_values
        then (top_value_list, top_index_list)
      else
        let (tv, ti) =
              (case find_pos v top_value_list 0 of
                 Some j \<Rightarrow> (list_insert j v top_value_list, list_insert j i top_index_list)
               | None \<Rightarrow> (top_value_list, top_index_list))
        in if int (length tv) > num_values then (butlast tv, butlast ti) else (tv, ti))"

definition get_top :: "'a::linorder list \<Rightarrow> int \<Rightarrow> 'a list \<times> nat list" where
  "get_top value_list num_values =
     foldl (\<lambda>st i. get_top_step num_values st i (value_list ! i)) ([], [])
       [0 ..< length value_list]"

text \<open>
  The loop invariant: after the positions below \<open>b\<close>, the values kept are in
  descending order and each is the input element at the position kept beside it.
\<close>

definition top_inv :: "'a::linorder list \<Rightarrow> nat \<Rightarrow> 'a list \<times> nat list \<Rightarrow> bool" where
  "top_inv xs b st \<longleftrightarrow>
     sorted_wrt (\<ge>) (fst st) \<and> fst st = map (\<lambda>k. xs ! k) (snd st) \<and> (\<forall>k \<in> set (snd st). k < b)"

section \<open>Python values, errors and dictionaries\<close>

text \<open>The exceptions the modelled functions can raise.\<close>

datatype error = ValueError | IndexError | KeyError | TypeError | AttributeError

text \<open>
  A \<open>dict\<close> keeps its keys in insertion order and holds each key once: an
  association list whose keys are distinct. \<open>d[k]\<close> raises \<open>KeyError\<close> for an
  absent key; \<open>d[k] = v\<close> replaces the value in place when the key is present
  and adds the pair at the end otherwise.
\<close>

type_synonym ('k, 'v) dict = "('k \<times> 'v) list"

definition dict_get :: "('k, 'v) dict \<Rightarrow> 'k \<Rightarrow> error + 'v" where
  "dict_get d k = (case map_of d k of None \<Rightarrow> Inl KeyError | Some v \<Rightarrow> Inr v)"

fun dict_set :: "'k \<Rightarrow> 'v \<Rightarrow> ('k, 'v) dict \<Rightarrow> ('k, 'v) dict" where
  "dict_set k v [] = [(k, v)]"
| "dict_set k v (p # d) = (if fst p = k then (k, v) # d else p # dict_set k v d)"

text \<open>A comprehension whose element expression may raise: the first error wins.\<close>

fun map_err :: "('a \<Rightarrow> error + 'b) \<Rightarrow> 'a list \<Rightarrow> error + 'b list" where
  "map_err f [] = Inr []"
| "map_err f (x # xs) =
     (case f x of Inl e \<Rightarrow> Inl e
      | Inr y \<Rightarrow> (case map_err f xs of Inl e \<Rightarrow> Inl e | Inr ys \<Rightarrow> Inr (y # ys)))"

text \<open>A loop over \<open>xs\<close> whose body may raise: the first error ends the loop.\<close>

fun fold_err :: "('a \<Rightarrow> 's \<Rightarrow> error + 's) \<Rightarrow> 'a list \<Rightarrow> 's \<Rightarrow> error + 's" where
  "fold_err f [] s = Inr s"
| "fold_err f (x # xs) s = (case f x s of Inl e \<Rightarrow> Inl e | Inr s' \<Rightarrow> fold_err f xs s')"

text \<open>\<open>sep.join(xs)\<close> for a list of strings.\<close>

fun join :: "string \<Rightarrow> string list \<Rightarrow> string" where
  "join sep [] = []"
| "join sep [x] = x"
| "join sep (x # y # ys) = x @ sep @ join sep (y # ys)"

abbreviation newline :: char where
  "newline \<equiv> CHR 0x0A"

text \<open>\<open>max(xs)\<close> of a list of lengths; the empty list raises \<open>ValueError\<close>.\<close>

fun py_max :: "nat list \<Rightarrow> error + nat" where
  "py_max [] = Inl ValueError"
| "py_max (x # xs) = Inr (fold max xs x)"

text \<open>\<open>str\<close> of a Python integer: decimal digits, with a minus sign when negative.\<close>

definition digit_char :: "nat \<Rightarrow> char" where
  "digit_char d = ''0123456789'' ! d"

fun str_nat :: "nat \<Rightarrow> string" where
  "str_nat n = (if n < 10 then [digit_char n] else str_nat (n div 10) @ [digit_char (n mod 10)])"

declare str_nat.simps [simp del]

definition str_int :: "int \<Rightarrow> string" where
  "str_int i = (if i < 0 then CHR ''-'' # str_nat (nat (- i)) else str_nat (nat i))"

section \<open>Writing a dictionary as CSV: \<open>dict_to_csv\<close>\<close>

text \<open>
  The same function stands in cp_sampler.py and in summary/sum_phi.py. A value of the
  dictionary is a list or anything else (\<open>isinstance(v, list)\<close> tells them
  apart); the elements are turned into text by Python's \<open>str\<close>, a parameter of the
  model. The caller's dictionary is mutated, so the model returns it together with the
  text written to \<open>csv_path\<close>, or with the exception raised. Failures of the file
  system are outside the model.
\<close>

datatype 'v pyval = Scalar 'v | PList "'v list"

text \<open>The first loop: every value that is not a list is wrapped in a list.\<close>

fun wrap_scalars ::
  "string list \<Rightarrow> (string, 'v pyval) dict \<Rightarrow> (string, 'v pyval) dict \<times> error option" where
  "wrap_scalars [] d = (d, None)"
| "wrap_scalars (header # hs) d =
     (case dict_get d header of
        Inl e \<Rightarrow> (d, Some e)
      | Inr (PList l) \<Rightarrow> wrap_scalars hs d
      | Inr (Scalar v) \<Rightarrow> wrap_scalars hs (dict_set header (PList [v]) d))"

text \<open>\<open>len(v)\<close> and \<open>v[i]\<close> for a value of the dictionary.\<close>

fun py_len :: "'v pyval \<Rightarrow> error + nat" where
  "py_len (PList l) = Inr (length l)"
| "py_len (Scalar v) = Inl TypeError"

fun py_index :: "'v pyval \<Rightarrow> nat \<Rightarrow> error + 'v" where
  "py_index (PList l) i = (if i < length l then Inr (l ! i) else Inl IndexError)"
| "py_index (Scalar v) i = Inl TypeError"

text \<open>
  One field of row \<open>i\<close>:
  \<open>str(data_dict[header][i]) if i < len(data_dict[header]) else ""\<close>.
\<close>

definition csv_field ::
  "('v \<Rightarrow> string) \<Rightarrow> (string, 'v pyval) dict \<Rightarrow> nat \<Rightarrow> string \<Rightarrow> error + string" where
  "csv_field str d i header =
     (case dict_get d header of
        Inl e \<Rightarrow> Inl e
      | Inr v \<Rightarrow>
          (case py_len v of
             Inl e \<Rightarrow> Inl e
           | Inr n \<Rightarrow>
               if i < n then (case py_index v i of Inl e \<Rightarrow> Inl e | Inr x \<Rightarrow> Inr (str x))
               else Inr []))"

text \<open>The row loop: each pass appends one line to the text written so far.\<close>

definition write_row ::
  "('v \<Rightarrow> string) \<Rightarrow> (string, 'v pyval) dict \<Rightarrow> string list \<Rightarrow> nat \<Rightarrow> string \<Rightarrow> error + string" where
  "write_row str d headers i written =
     (case map_err (csv_field str d i) headers of
        Inl e \<Rightarrow> Inl e
      | Inr row_list \<Rightarrow> Inr (written @ join '','' row_list @ [newline]))"

definition dict_to_csv ::
  "('v \<Rightarrow> string) \<Rightarrow> (string, 'v pyval) dict \<Rightarrow> (string, 'v pyval) dict \<times> (error + string)" where
  "dict_to_csv str data_dict =
     (let headers = map fst data_dict in
      case wrap_scalars headers data_dict of
        (d, Some e) \<Rightarrow> (d, Inl e)
      | (d, None) \<Rightarrow>
          (d,
           let written = join '','' headers @ [newline] in
           case map_err (\<lambda>header. case dict_get d header of Inl e \<Rightarrow> Inl e | Inr v \<Rightarrow> py_len v)
                  headers of
             Inl e \<Rightarrow> Inl e
           | Inr lens \<Rightarrow>
               (case py_max lens of
                  Inl e \<Rightarrow> Inl e
                | Inr max_list_size \<Rightarrow>
                    fold_err (write_row str d headers) [0 ..< max_list_size] written)))"

text \<open>
  What the first loop leaves in place of a value: a list stays, anything else becomes
  the list holding it.
\<close>

fun as_list :: "'v pyval \<Rightarrow> 'v list" where
  "as_list (PList l) = l"
| "as_list (Scalar v) = [v]"

definition wrapped :: "(string, 'v pyval) dict \<Rightarrow> (string, 'v pyval) dict" where
  "wrapped d = map (\<lambda>p. (fst p, PList (as_list (snd p)))) d"

text \<open>Row \<open>i\<close> as the claim words it: the \<open>i\<close>-th element of each column, or nothing.\<close>

definition padded_row :: "('v \<Rightarrow> string) \<Rightarrow> (string, 'v pyval) dict \<Rightarrow> nat \<Rightarrow> string" where
  "padded_row str d i =
     join '','' (map (\<lambda>p. if i < length (as_list (snd p)) then str (as_list (snd p) ! i) else []) d)"

definition max_list_length :: "(string, 'v pyval) dict \<Rightarrow> nat" where
  "max_list_length d = Max (set (map (\<lambda>p. length (as_list (snd p))) d))"

text \<open>A file as the lines written to it, each ended by a newline.\<close>

definition file_of_lines :: "string list \<Rightarrow> string" where
  "file_of_lines ls = concat (map (\<lambda>l. l @ [newline]) ls)"

section \<open>Reading CSV text back: \<open>csv_to_dict\<close> of summary/sum_phi.py\<close>














text \<open>A small reading of \<open>float\<close> for unsigned decimal integers, to run examples.\<close>

definition digit_value :: "char \<Rightarrow> nat option" where
  "digit_value c = (if c \<in> set ''0123456789'' then Some (of_char c - 48) else None)"

fun digits_value :: "string \<Rightarrow> nat \<Rightarrow> nat option" where
  "digits_value [] acc = Some acc"
| "digits_value (c # cs) acc =
     (case digit_value c of None \<Rightarrow> None | Some d \<Rightarrow> digits_value cs (10 * acc + d))"



section \<open>Rounding to significant figures: \<open>round_sf\<close>\<close>

text \<open>
  The same function stands in cp_sampler.py and in summary/sum_phi.py:
  \<open>float(("{:." + str(sf) + "g}").format(value))\<close>. Formatting and \<open>float\<close> belong
  to the language, and are taken from its reference. For presentation type \<open>g\<close> with
  precision \<open>p\<close> the number is rounded to \<open>p\<close> significant digits, a precision
  of \<open>0\<close> counting as \<open>1\<close>, and written in fixed-point or in exponent notation
  with the insignificant zeros removed; \<open>float\<close> reads such a text back as the
  number it denotes. A negative \<open>sf\<close> gives a format specification such as
  \<open>.-3g\<close>, which \<open>format\<close> refuses with a \<open>ValueError\<close>.

  Numbers are exact rationals here, so the binary rounding of a double is left out, and
  the text is kept as the integer of its significant digits and the power of ten of the
  last one: \<open>1.23e+05\<close> is \<open>(123, 3)\<close> and \<open>0.00046\<close> is \<open>(46, -5)\<close>.
\<close>

definition pow10 :: "int \<Rightarrow> rat" where
  "pow10 k = (if 0 \<le> k then 10 ^ nat k else 1 / 10 ^ nat (- k))"

text \<open>
  The decimal exponent of a positive number \<open>x\<close>, the \<open>e\<close> with
  \<open>10 ^ e \<le> x < 10 ^ (e + 1)\<close>: counted upwards from \<open>1\<close> or downwards from it.
\<close>

function exponent_up :: "rat \<Rightarrow> int" where
  "exponent_up x = (if x < 10 then 0 else exponent_up (x / 10) + 1)"
  by pat_completeness auto
termination
proof (relation "measure (\<lambda>x. nat \<lfloor>x\<rfloor>)")
  show "wf (measure (\<lambda>x :: rat. nat \<lfloor>x\<rfloor>))" by simp
next
  fix x :: rat
  assume "\<not> x < 10"
  then have x: "10 \<le> x" by simp
  have "of_int \<lfloor>x / 10\<rfloor> \<le> x / 10" by (rule of_int_floor_le)
  then have "of_int (\<lfloor>x / 10\<rfloor> + 1) \<le> x" using x by (simp only: of_int_add of_int_1)
  then have "\<lfloor>x / 10\<rfloor> + 1 \<le> \<lfloor>x\<rfloor>" by (simp only: le_floor_iff)
  moreover have "0 \<le> \<lfloor>x / 10\<rfloor>" using x by simp
  ultimately have "nat \<lfloor>x / 10\<rfloor> < nat \<lfloor>x\<rfloor>" by linarith
  then show "(x / 10, x) \<in> measure (\<lambda>x. nat \<lfloor>x\<rfloor>)" by (simp only: in_measure)
qed

function exponent_down :: "rat \<Rightarrow> int" where
  "exponent_down x = (if x \<le> 0 \<or> 1 \<le> x then 0 else exponent_down (x * 10) - 1)"
  by pat_completeness auto
termination
proof (relation "measure (\<lambda>x. nat \<lfloor>1 / x\<rfloor>)")
  show "wf (measure (\<lambda>x :: rat. nat \<lfloor>1 / x\<rfloor>))" by simp
next
  fix x :: rat
  assume "\<not> (x \<le> 0 \<or> 1 \<le> x)"
  then have x: "0 < x" "x < 1" by simp_all
  define y where "y = 1 / x"
  have y: "1 < y" using x by (simp add: y_def)
  have eq: "1 / (x * 10) = y / 10" by (simp add: y_def)
  have "of_int (\<lfloor>y / 10\<rfloor> + 1) \<le> y"
  proof (cases "y < 10")
    case True
    then have "\<lfloor>y / 10\<rfloor> = 0" using y by (simp add: floor_eq_iff)
    then show ?thesis using y by simp
  next
    case False
    have "of_int \<lfloor>y / 10\<rfloor> \<le> y / 10" by (rule of_int_floor_le)
    then show ?thesis using False by (simp only: of_int_add of_int_1)
  qed
  then have "\<lfloor>y / 10\<rfloor> + 1 \<le> \<lfloor>y\<rfloor>" by (simp only: le_floor_iff)
  moreover have "0 \<le> \<lfloor>y / 10\<rfloor>" using y by simp
  ultimately have "nat \<lfloor>y / 10\<rfloor> < nat \<lfloor>y\<rfloor>" by linarith
  then show "(x * 10, x) \<in> measure (\<lambda>x. nat \<lfloor>1 / x\<rfloor>)"
    by (simp only: in_measure eq) (simp only: y_def)
qed

definition decimal_exponent :: "rat \<Rightarrow> int" where
  "decimal_exponent x = (if 1 \<le> x then exponent_up x else exponent_down x)"

text \<open>Rounding to the nearest integer, a tie going to the even one.\<close>

definition round_half_even :: "rat \<Rightarrow> int" where
  "round_half_even x =
     (let f = \<lfloor>x\<rfloor>; d = x - of_int f
      in if d < 1 / 2 then f else if 1 / 2 < d then f + 1 else if even f then f else f + 1)"

text \<open>
  \<open>"{:.pg}".format(x)\<close>: the digits of \<open>x\<close> rounded to \<open>max(p, 1)\<close>
  significant ones, with their sign, and the power of ten of the last digit.
\<close>

definition format_g :: "nat \<Rightarrow> rat \<Rightarrow> int \<times> int" where
  "format_g precision x =
     (if x = 0 then (0, 0)
      else let p = max 1 precision;
               k = decimal_exponent \<bar>x\<bar> - int p + 1;
               m = round_half_even (\<bar>x\<bar> / pow10 k)
           in (if x < 0 then - m else m, k))"

text \<open>\<open>float(text)\<close>: the number that the digits and the power of ten denote.\<close>

definition py_float :: "int \<times> int \<Rightarrow> rat" where
  "py_float t = of_int (fst t) * pow10 (snd t)"

definition round_sf :: "rat \<Rightarrow> int \<Rightarrow> error + rat" where
  "round_sf x sf =
     (if sf < 0 then Inl ValueError else Inr (py_float (format_g (nat sf) x)))"

section \<open>The model object and one trial: \<open>Model\<close> of cp_sampler.py\<close>

text \<open>
  The five constitutive parameters are attributes that the constructor does not set and
  \<open>define_params\<close> overwrites; \<open>model_output\<close> starts as \<open>None\<close>. The
  grain data and the lattice never change and stay inside the physics call, which is a
  parameter of the model: lines 91 to 98 of \<open>run_cp\<close>, the construction of the
  NEML objects and the uniaxial test, either raise or return the output tuple.
\<close>

record ('p, 'r) model =
  p_tau_sat :: "'p option"
  p_b :: "'p option"
  p_tau_0 :: "'p option"
  p_gamma_0 :: "'p option"
  p_n :: "'p option"
  model_output :: "'r option"

definition new_model :: "('p, 'r) model" where
  "new_model = \<lparr>p_tau_sat = None, p_b = None, p_tau_0 = None, p_gamma_0 = None, p_n = None,
                 model_output = None\<rparr>"

definition define_params ::
  "('p, 'r) model \<Rightarrow> 'p \<Rightarrow> 'p \<Rightarrow> 'p \<Rightarrow> 'p \<Rightarrow> 'p \<Rightarrow> ('p, 'r) model" where
  "define_params self tau_sat b tau_0 gamma_0 n =
     self\<lparr>p_tau_sat := Some tau_sat, p_b := Some b, p_tau_0 := Some tau_0,
          p_gamma_0 := Some gamma_0, p_n := Some n\<rparr>"

text \<open>
  The call \<open>model.define_params(**param_dict)\<close>: a \<open>TypeError\<close> unless the keys
  are exactly the five parameter names.
\<close>

definition define_params_kw ::
  "('p, 'r) model \<Rightarrow> (string, 'p) dict \<Rightarrow> error + ('p, 'r) model" where
  "define_params_kw self kw =
     (case map_of kw ''tau_sat'' of None \<Rightarrow> Inl TypeError | Some tau_sat \<Rightarrow>
      case map_of kw ''b'' of None \<Rightarrow> Inl TypeError | Some b \<Rightarrow>
      case map_of kw ''tau_0'' of None \<Rightarrow> Inl TypeError | Some tau_0 \<Rightarrow>
      case map_of kw ''gamma_0'' of None \<Rightarrow> Inl TypeError | Some gamma_0 \<Rightarrow>
      case map_of kw ''n'' of None \<Rightarrow> Inl TypeError | Some n \<Rightarrow>
      if length kw = 5 then Inr (define_params self tau_sat b tau_0 gamma_0 n)
      else Inl TypeError)"

text \<open>\<open>run_cp\<close>: the bare \<open>except\<close> turns every exception into \<open>None\<close>.\<close>

definition run_cp :: "(('p, 'r) model \<Rightarrow> 'e + 'r) \<Rightarrow> ('p, 'r) model \<Rightarrow> ('p, 'r) model" where
  "run_cp physics self =
     (case physics self of
        Inr out \<Rightarrow> self\<lparr>model_output := Some out\<rparr>
      | Inl e \<Rightarrow> self\<lparr>model_output := None\<rparr>)"

definition get_results :: "('p, 'r) model \<Rightarrow> 'r option" where
  "get_results self = model_output self"

text \<open>
  The three ways an iteration of the sweep ends (lines 260 to 267): the timeout marker,
  the failed marker, or the result file. The main thread decides by what it finds after
  \<open>join\<close> has returned: \<open>thread.is_alive()\<close> first, and if the thread is not
  alive the value of \<open>model_output\<close> that \<open>get_results\<close> reads then.
\<close>

datatype 'r outcome = TimedOut | Failed | Success 'r

definition classify :: "bool \<Rightarrow> 'r option \<Rightarrow> 'r outcome" where
  "classify is_alive output =
     (if is_alive then TimedOut
      else case output of None \<Rightarrow> Failed | Some out \<Rightarrow> Success out)"

text \<open>
  What is recorded for the object \<open>self\<close> when a worker has run \<open>run_cp\<close> on it
  to the end, the thread is found finished and nothing else has written
  \<open>model_output\<close> since: the outcome of a trial left undisturbed.
\<close>

definition undisturbed :: "(('p, 'r) model \<Rightarrow> 'e + 'r) \<Rightarrow> ('p, 'r) model \<Rightarrow> 'r outcome" where
  "undisturbed physics self = classify False (get_results (run_cp physics self))"

section \<open>The sweep: the script of cp_sampler.py\<close>

text \<open>\<open>itertools.product(*param_list)\<close>: the last domain varies fastest.\<close>

fun itertools_product :: "'a list list \<Rightarrow> 'a list list" where
  "itertools_product [] = [[]]"
| "itertools_product (xs # xss) = concat (map (\<lambda>x. map ((#) x) (itertools_product xss)) xs)"

text \<open>\<open>s.zfill(width)\<close> for a string without a sign.\<close>

definition zfill :: "nat \<Rightarrow> string \<Rightarrow> string" where
  "zfill width s = replicate (width - length s) (CHR ''0'') @ s"

definition index_str :: "nat \<Rightarrow> string" where
  "index_str i = zfill 3 (str_int (int i + 1))"

definition results_path :: "int \<Rightarrow> int \<Rightarrow> nat \<Rightarrow> string" where
  "results_path index_1 index_2 i =
     ''results/'' @ str_int index_1 @ ''_'' @ str_int index_2 @ ''_'' @ index_str i"

definition file_suffix :: "'r outcome \<Rightarrow> string" where
  "file_suffix oc = (case oc of TimedOut \<Rightarrow> ''_timeout.csv'' | Failed \<Rightarrow> ''_failed.csv''
                     | Success out \<Rightarrow> ''.csv'')"

text \<open>\<open>{**a, **b}\<close>: the keys of \<open>a\<close> in their order, then the new keys of \<open>b\<close>.\<close>

definition merge :: "('k, 'v) dict \<Rightarrow> ('k, 'v) dict \<Rightarrow> ('k, 'v) dict" where
  "merge a b = fold (\<lambda>p d. dict_set (fst p) (snd p) d) b a"

text \<open>
  The files written so far are a list of paths with their texts, in the order of
  writing. \<open>write_csv\<close> is the call of \<open>dict_to_csv\<close> on a path.
\<close>

type_synonym files = "(string \<times> string) list"

definition write_csv ::
  "('p \<Rightarrow> string) \<Rightarrow> (string, 'p pyval) dict \<Rightarrow> string \<Rightarrow> files \<Rightarrow> error + files" where
  "write_csv str data_dict csv_path fs =
     (case snd (dict_to_csv str data_dict) of
        Inl e \<Rightarrow> Inl e
      | Inr written \<Rightarrow> Inr (fs @ [(csv_path, written)]))"

text \<open>
  What the script reads of the tuple \<open>(sc_model, pc_model, results)\<close> that
  \<open>run_cp\<close> stores: the lists \<open>results["strain"]\<close> and \<open>results["stress"]\<close>
  of vectors, the list \<open>results["history"]\<close> of states, and for a state and a grain
  \<open>i\<close> the three Euler angles
  \<open>pc_model.orientations(state)[i].to_euler(...)\<close>, which the library gives for
  every grain of the grain file.
\<close>

record 'st cp_output =
  out_strain :: "rat list list"
  out_stress :: "rat list list"
  out_history :: "'st list"
  out_angles :: "'st \<Rightarrow> nat \<Rightarrow> rat \<times> rat \<times> rat"

text \<open>\<open>xs[0]\<close> and \<open>xs[-1]\<close>: an \<open>IndexError\<close> for the empty list.\<close>

definition py_first :: "'a list \<Rightarrow> error + 'a" where
  "py_first xs = (case xs of [] \<Rightarrow> Inl IndexError | x # _ \<Rightarrow> Inr x)"

definition py_last :: "'a list \<Rightarrow> error + 'a" where
  "py_last xs = (case xs of [] \<Rightarrow> Inl IndexError | _ # _ \<Rightarrow> Inr (last xs))"

text \<open>\<open>d[key].append(v)\<close>.\<close>

definition append_to :: "string \<Rightarrow> 'a \<Rightarrow> (string, 'a list) dict \<Rightarrow> error + (string, 'a list) dict" where
  "append_to key v d =
     (case dict_get d key of Inl e \<Rightarrow> Inl e | Inr l \<Rightarrow> Inr (dict_set key (l @ [v]) d))"

text \<open>
  \<open>get_grain_dict\<close> (lines 151 to 188). For a grain \<open>i\<close> the inner loop collects
  the three angles over the history; then six values are appended, the first and the
  last of each trajectory, and the first of these reads raises when the history is
  empty.
\<close>

definition grain_step ::
  "('st \<Rightarrow> nat \<Rightarrow> rat \<times> rat \<times> rat) \<Rightarrow> 'st list \<Rightarrow> nat \<Rightarrow>
   (string, rat list) dict \<Rightarrow> error + (string, rat list) dict" where
  "grain_step angles history i grain_dict =
     (let euler_list = [map (\<lambda>state. fst (angles state i)) history,
                        map (\<lambda>state. fst (snd (angles state i))) history,
                        map (\<lambda>state. snd (snd (angles state i))) history]
      in fold_err (\<lambda>p d. case snd p of Inl e \<Rightarrow> Inl e | Inr v \<Rightarrow> append_to (fst p) v d)
           [(''phi_1_start'', py_first (euler_list ! 0)),
            (''phi_1_end'', py_last (euler_list ! 0)),
            (''Phi_start'', py_first (euler_list ! 1)),
            (''Phi_end'', py_last (euler_list ! 1)),
            (''phi_2_start'', py_first (euler_list ! 2)),
            (''phi_2_end'', py_last (euler_list ! 2))]
           grain_dict)"

definition get_grain_dict ::
  "('st \<Rightarrow> nat \<Rightarrow> rat \<times> rat \<times> rat) \<Rightarrow> 'st list \<Rightarrow> nat list \<Rightarrow>
   error + (string, rat list) dict" where
  "get_grain_dict angles history indexes =
     fold_err (grain_step angles history) indexes
       [(''phi_1_start'', []), (''phi_1_end'', []), (''Phi_start'', []),
        (''Phi_end'', []), (''phi_2_start'', []), (''phi_2_end'', [])]"

text \<open>\<open>[round_sf(s[0], 5) for s in xs]\<close> (lines 270 and 271).\<close>

definition tensile_curve :: "rat list list \<Rightarrow> error + rat list" where
  "tensile_curve xs =
     map_err (\<lambda>s. case py_first s of Inl e \<Rightarrow> Inl e | Inr x \<Rightarrow> round_sf x 5) xs"

text \<open>
  Lines 269 to 282 for a trial that did not fail: the two curves, the grain dictionary
  for the grains \<open>top_indexes\<close>, and
  \<open>{**param_dict, **data_dict, **grain_dict}\<close>.
\<close>

definition combined_dict ::
  "nat list \<Rightarrow> (string, rat pyval) dict \<Rightarrow> 'st cp_output \<Rightarrow> error + (string, rat pyval) dict" where
  "combined_dict top_indexes param_dict out =
     (case tensile_curve (out_strain out) of
        Inl e \<Rightarrow> Inl e
      | Inr strain_list \<Rightarrow>
          (case tensile_curve (out_stress out) of
             Inl e \<Rightarrow> Inl e
           | Inr stress_list \<Rightarrow>
               (case get_grain_dict (out_angles out) (out_history out) top_indexes of
                  Inl e \<Rightarrow> Inl e
                | Inr grain_dict \<Rightarrow>
                    Inr (merge
                           (merge param_dict
                              [(''strain'', PList strain_list), (''stress'', PList stress_list)])
                           (map (\<lambda>p. (fst p, PList (snd p))) grain_dict)))))"

text \<open>
  One iteration of the loop over the combinations, as the main thread runs it. The
  worker runs beside it on the same object, so what \<open>thread.is_alive()\<close> answers
  after \<open>join\<close> and what \<open>model_output\<close> holds when \<open>get_results\<close> reads it
  depend on how the threads are scheduled: for iteration \<open>i\<close> they are the pair
  \<open>seen i\<close>, an input of the model, and the section on detached workers says which
  pairs a schedule can give. The values of \<open>param_dict\<close> are scalars.
\<close>

definition sweep_step ::
  "(rat \<Rightarrow> string) \<Rightarrow> (nat \<Rightarrow> bool \<times> 'st cp_output option) \<Rightarrow> nat list \<Rightarrow>
   int \<Rightarrow> int \<Rightarrow> string list \<Rightarrow> rat list list \<Rightarrow> nat \<Rightarrow>
   (rat, 'st cp_output) model \<times> files \<Rightarrow> error + (rat, 'st cp_output) model \<times> files" where
  "sweep_step str seen top_indexes index_1 index_2 param_names combinations i st =
     (let param_dict = zip param_names (combinations ! i);
          path = results_path index_1 index_2 i
      in case define_params_kw (fst st) param_dict of
           Inl e \<Rightarrow> Inl e
         | Inr self \<Rightarrow>
             (case seen i of
                (is_alive, output) \<Rightarrow>
                  (case classify is_alive (get_results (self\<lparr>model_output := output\<rparr>)) of
                     TimedOut \<Rightarrow>
                       (case write_csv str (map (\<lambda>p. (fst p, Scalar (snd p))) param_dict)
                               (path @ ''_timeout.csv'') (snd st) of
                          Inl e \<Rightarrow> Inl e | Inr fs \<Rightarrow> Inr (self, fs))
                   | Failed \<Rightarrow>
                       (case write_csv str (map (\<lambda>p. (fst p, Scalar (snd p))) param_dict)
                               (path @ ''_failed.csv'') (snd st) of
                          Inl e \<Rightarrow> Inl e | Inr fs \<Rightarrow> Inr (self, fs))
                   | Success out \<Rightarrow>
                       (case combined_dict top_indexes
                               (map (\<lambda>p. (fst p, Scalar (snd p))) param_dict) out of
                          Inl e \<Rightarrow> Inl e
                        | Inr d \<Rightarrow>
                            (case write_csv str d (path @ ''.csv'') (snd st) of
                               Inl e \<Rightarrow> Inl e | Inr fs \<Rightarrow> Inr (self, fs))))))"

text \<open>
  The whole script from line 236 on, for a table of domains: the combinations, the ten
  heaviest grains, then the loop.
\<close>

definition sweep ::
  "(rat \<Rightarrow> string) \<Rightarrow> (nat \<Rightarrow> bool \<times> 'st cp_output option) \<Rightarrow> 'w::linorder list \<Rightarrow>
   int \<Rightarrow> int \<Rightarrow> (string, rat list) dict \<Rightarrow> error + (rat, 'st cp_output) model \<times> files" where
  "sweep str seen weights index_1 index_2 domains =
     (let param_list = map snd domains;
          combinations = itertools_product param_list;
          top_indexes = snd (get_top weights 10);
          param_names = map fst domains
      in fold_err
           (sweep_step str seen top_indexes index_1 index_2 param_names combinations)
           [0 ..< length combinations] (new_model, []))"

text \<open>Python's \<open>xs[i]\<close>: a negative index counts from the end.\<close>

definition py_nth :: "'a list \<Rightarrow> int \<Rightarrow> error + 'a" where
  "py_nth xs i =
     (let n = int (length xs); j = (if i < 0 then n + i else i)
      in if 0 \<le> j \<and> j < n then Inr (xs ! nat j) else Inl IndexError)"

text \<open>
  The table of the script (lines 228 to 234). The two command line arguments pick one
  value of \<open>tau_sat\<close> and one of \<open>n\<close>; \<open>gamma_0\<close> is the one value
  \<open>round_sf(STRAIN_RATE/3, 4)\<close>.
\<close>

definition STRAIN_RATE :: rat where
  "STRAIN_RATE = 1 / 10 ^ 4"

definition all_params_dict :: "int \<Rightarrow> int \<Rightarrow> error + (string, rat list) dict" where
  "all_params_dict index_1 index_2 =
     (case py_nth [50, 100, 200, 400, 800, 1600] index_2 of
        Inl e \<Rightarrow> Inl e
      | Inr tau_sat \<Rightarrow>
          (case round_sf (STRAIN_RATE / 3) 4 of
             Inl e \<Rightarrow> Inl e
           | Inr gamma_0 \<Rightarrow>
               (case py_nth [2, 4, 8, 16] index_1 of
                  Inl e \<Rightarrow> Inl e
                | Inr n \<Rightarrow>
                    Inr [(''tau_sat'', [tau_sat]),
                         (''b'', [1 / 10, 2 / 10, 4 / 10, 8 / 10, 16 / 10, 32 / 10, 64 / 10,
                                  128 / 10, 256 / 10, 512 / 10]),
                         (''tau_0'', [50, 100, 200, 400, 800]),
                         (''gamma_0'', [gamma_0]),
                         (''n'', [n])])))"

text \<open>
  What the sweep needs of its table of domains: the keys are the five parameters of
  \<open>define_params\<close>, each once, in any order.
\<close>

definition five_names :: "string list \<Rightarrow> bool" where
  "five_names names \<longleftrightarrow>
     distinct names \<and> set names = {''tau_sat'', ''b'', ''tau_0'', ''gamma_0'', ''n''}"

definition file_suffixes :: "string list" where
  "file_suffixes = [''_timeout.csv'', ''_failed.csv'', ''.csv'']"

text \<open>
  The text of a marker file for the combination \<open>c\<close>: the line of the parameter
  names and the line of the values of \<open>c\<close>.
\<close>

definition marker_text :: "(rat \<Rightarrow> string) \<Rightarrow> string list \<Rightarrow> rat list \<Rightarrow> string" where
  "marker_text str names c = file_of_lines [join '','' names, join '','' (map str c)]"

text \<open>The number that \<open>round_sf\<close> returns for a precision that is not negative.\<close>

definition rounded :: "nat \<Rightarrow> rat \<Rightarrow> rat" where
  "rounded sf x = py_float (format_g sf x)"

text \<open>
  The columns that a result file holds after those of the parameters: the first
  components of the strain and stress vectors, rounded to five significant digits,
  and, for each of the chosen grains in their order, the three Euler angles in the first
  and in the last state of the history.
\<close>

definition result_columns :: "nat list \<Rightarrow> 'st cp_output \<Rightarrow> (string, rat pyval) dict" where
  "result_columns top_indexes out =
     [(''strain'', PList (map (\<lambda>s. rounded 5 (hd s)) (out_strain out))),
      (''stress'', PList (map (\<lambda>s. rounded 5 (hd s)) (out_stress out))),
      (''phi_1_start'',
         PList (map (\<lambda>i. fst (out_angles out (hd (out_history out)) i)) top_indexes)),
      (''phi_1_end'',
         PList (map (\<lambda>i. fst (out_angles out (last (out_history out)) i)) top_indexes)),
      (''Phi_start'',
         PList (map (\<lambda>i. fst (snd (out_angles out (hd (out_history out)) i))) top_indexes)),
      (''Phi_end'',
         PList (map (\<lambda>i. fst (snd (out_angles out (last (out_history out)) i))) top_indexes)),
      (''phi_2_start'',
         PList (map (\<lambda>i. snd (snd (out_angles out (hd (out_history out)) i))) top_indexes)),
      (''phi_2_end'',
         PList (map (\<lambda>i. snd (snd (out_angles out (last (out_history out)) i))) top_indexes))]"

text \<open>
  The text of the result file for the combination \<open>c\<close> and the output \<open>out\<close>:
  the header of the parameter names followed by the eight names of the data, then one
  line for each index up to the longest column; the first line begins with the values
  of \<open>c\<close>, and the later ones leave the fields of the parameters empty.
\<close>

definition result_text ::
  "(rat \<Rightarrow> string) \<Rightarrow> string list \<Rightarrow> rat list \<Rightarrow> nat list \<Rightarrow> 'st cp_output \<Rightarrow> string" where
  "result_text str names c top_indexes out =
     (let d = map (\<lambda>p. (fst p, Scalar (snd p))) (zip names c) @ result_columns top_indexes out
      in file_of_lines
           (join '','' (names @ map fst (result_columns top_indexes out)) #
            map (padded_row str d) [0 ..< max_list_length d]))"

text \<open>
  The file that iteration \<open>i\<close> is to write, by what the main thread sees: its name
  and its text.
\<close>

definition expected_file ::
  "(rat \<Rightarrow> string) \<Rightarrow> (nat \<Rightarrow> bool \<times> 'st cp_output option) \<Rightarrow> nat list \<Rightarrow> int \<Rightarrow> int \<Rightarrow>
   string list \<Rightarrow> rat list list \<Rightarrow> nat \<Rightarrow> string \<times> string" where
  "expected_file str seen top_indexes index_1 index_2 names combinations i =
     (if fst (seen i)
      then (results_path index_1 index_2 i @ ''_timeout.csv'',
            marker_text str names (combinations ! i))
      else case snd (seen i) of
             None \<Rightarrow> (results_path index_1 index_2 i @ ''_failed.csv'',
                      marker_text str names (combinations ! i))
           | Some out \<Rightarrow> (results_path index_1 index_2 i @ ''.csv'',
                          result_text str names (combinations ! i) top_indexes out))"

text \<open>
  The outputs that the lines after the two markers read without raising: a history
  with at least one state, and strain and stress vectors with at least one component.
  \<open>good_seen\<close> asks it of every output that the first \<open>k\<close> iterations may read.
\<close>

definition good_output :: "'st cp_output \<Rightarrow> bool" where
  "good_output out \<longleftrightarrow>
     out_history out \<noteq> [] \<and> [] \<notin> set (out_strain out) \<and> [] \<notin> set (out_stress out)"

definition good_seen :: "(nat \<Rightarrow> bool \<times> 'st cp_output option) \<Rightarrow> nat \<Rightarrow> bool" where
  "good_seen seen k =
     list_all (\<lambda>i. case snd (seen i) of None \<Rightarrow> True | Some out \<Rightarrow> good_output out) [0 ..< k]"

text \<open>
  A small sweep to run the model on: two values of \<open>b\<close> and three of \<open>tau_0\<close>,
  the other three domains single. The main thread finds the second trial failed and
  the fifth still alive; for the others it reads an output of two samples and two
  states. \<open>demo_str\<close> writes a whole number as Python writes the integer.
\<close>

definition demo_domains :: "(string, rat list) dict" where
  "demo_domains = [(''tau_sat'', [50]), (''b'', [1, 2]), (''tau_0'', [50, 100, 200]),
                   (''gamma_0'', [3]), (''n'', [16])]"

definition demo_output :: "nat cp_output" where
  "demo_output =
     \<lparr>out_strain = [[0, 7], [299996 / 10 ^ 5, 7]], out_stress = [[0, 0], [250, 0]],
      out_history = [0, 1],
      out_angles = (\<lambda>state i. (of_nat (10 * state + i), of_nat (20 * state + i), of_nat i))\<rparr>"

definition demo_seen :: "nat \<Rightarrow> bool \<times> nat cp_output option" where
  "demo_seen i = (if i = 4 then (True, None) else if i = 1 then (False, None)
                  else (False, Some demo_output))"

definition demo_str :: "rat \<Rightarrow> string" where
  "demo_str x = str_int \<lfloor>x\<rfloor>"

section \<open>Detached workers: the sweep as interleaved steps\<close>

text \<open>
  The loop does not wait for a worker that is still alive at its deadline: it writes the
  timeout marker and goes on, and the worker keeps running on the same \<open>model\<close>
  object. To follow what the main thread can find after \<open>join\<close>, the main thread
  and the workers are run as interleaved atomic steps, chosen by a schedule. An outcome
  recorded here is the file that \<open>sweep_step\<close> writes for the same
  \<open>is_alive()\<close> and \<open>model_output\<close>.

  A worker, once started, reads the parameters from the shared object (lines 92 to 93
  of \<open>run_cp\<close>), computes, and at the end writes \<open>model_output\<close> (line 99 or
  101); \<open>Computing\<close> holds the object as the worker read it.
\<close>

datatype ('p, 'r) worker = Started | Computing "('p, 'r) model" | Finished

text \<open>
  The main thread in iteration \<open>i\<close>: before \<open>define_params\<close> (line 254), before
  \<open>thread.start()\<close> (line 256), inside \<open>thread.join(timeout=MAX_TIME)\<close> (line
  257), and before \<open>thread.is_alive()\<close> and \<open>get_results()\<close> (lines 260 to 264).
\<close>

datatype position = AtDefine nat | AtStart nat | AtJoin nat | AtCheck nat

text \<open>
  The state of a run: the shared object, where the main thread stands, the threads
  created so far (one for each iteration begun, the last being \<open>thread\<close>), the
  outcomes recorded so far, and a flag set once \<open>define_params\<close> has run while a
  worker was in flight.
\<close>

record ('p, 'r) world =
  shared :: "('p, 'r) model"
  main_at :: position
  workers :: "('p, 'r) worker list"
  recorded :: "'r outcome list"
  raced :: bool

text \<open>
  What the schedule can choose: the next step of the main thread, the deadline of the
  \<open>join\<close> passing, or a step of the worker with a given number.
\<close>

datatype action = MainStep | Deadline | WorkerRead nat | WorkerWrite nat

definition in_flight :: "('p, 'r) worker list \<Rightarrow> bool" where
  "in_flight ws = list_ex (\<lambda>x. x \<noteq> Finished) ws"

text \<open>\<open>define_params(**param_dict)\<close> for a combination holding the five values.\<close>

definition apply_params ::
  "('p, 'r) model \<Rightarrow> 'p \<times> 'p \<times> 'p \<times> 'p \<times> 'p \<Rightarrow> ('p, 'r) model" where
  "apply_params self c =
     (case c of (tau_sat, b, tau_0, gamma_0, n) \<Rightarrow> define_params self tau_sat b tau_0 gamma_0 n)"

text \<open>
  A step of the main thread. \<open>join\<close> returns by itself only when \<open>thread\<close> has
  finished; the loop ends after the last combination. \<open>thread\<close> is the last of the
  threads created, and there is one from the first \<open>start\<close> on.
\<close>

definition main_step ::
  "('p \<times> 'p \<times> 'p \<times> 'p \<times> 'p) list \<Rightarrow> ('p, 'r) world \<Rightarrow> ('p, 'r) world option" where
  "main_step combinations w =
     (case main_at w of
        AtDefine i \<Rightarrow>
          if i < length combinations
          then Some (w\<lparr>shared := apply_params (shared w) (combinations ! i),
                       main_at := AtStart i,
                       raced := (raced w \<or> in_flight (workers w))\<rparr>)
          else None
      | AtStart i \<Rightarrow> Some (w\<lparr>workers := workers w @ [Started], main_at := AtJoin i\<rparr>)
      | AtJoin i \<Rightarrow>
          if last (workers w) = Finished then Some (w\<lparr>main_at := AtCheck i\<rparr>) else None
      | AtCheck i \<Rightarrow>
          Some (w\<lparr>recorded := recorded w @
                        [classify (last (workers w) \<noteq> Finished) (get_results (shared w))],
                    main_at := AtDefine (Suc i)\<rparr>))"

text \<open>
  One step of the whole program, \<open>None\<close> when the chosen step cannot happen. The
  deadline can pass only while the main thread is in \<open>join\<close> and \<open>thread\<close> has
  not finished.
\<close>

definition exec ::
  "(('p, 'r) model \<Rightarrow> 'e + 'r) \<Rightarrow> ('p \<times> 'p \<times> 'p \<times> 'p \<times> 'p) list \<Rightarrow> action \<Rightarrow>
   ('p, 'r) world \<Rightarrow> ('p, 'r) world option" where
  "exec physics combinations a w =
     (case a of
        MainStep \<Rightarrow> main_step combinations w
      | Deadline \<Rightarrow>
          (case main_at w of
             AtJoin i \<Rightarrow>
               if last (workers w) \<noteq> Finished then Some (w\<lparr>main_at := AtCheck i\<rparr>) else None
           | _ \<Rightarrow> None)
      | WorkerRead j \<Rightarrow>
          if j < length (workers w) \<and> workers w ! j = Started
          then Some (w\<lparr>workers := (workers w)[j := Computing (shared w)]\<rparr>)
          else None
      | WorkerWrite j \<Rightarrow>
          if j < length (workers w)
          then (case workers w ! j of
                  Computing seen \<Rightarrow>
                    Some (w\<lparr>shared := (shared w)\<lparr>model_output := model_output (run_cp physics seen)\<rparr>,
                              workers := (workers w)[j := Finished]\<rparr>)
                | _ \<Rightarrow> None)
          else None)"

fun run ::
  "(('p, 'r) model \<Rightarrow> 'e + 'r) \<Rightarrow> ('p \<times> 'p \<times> 'p \<times> 'p \<times> 'p) list \<Rightarrow> action list \<Rightarrow>
   ('p, 'r) world \<Rightarrow> ('p, 'r) world option" where
  "run physics combinations [] w = Some w"
| "run physics combinations (a # as) w =
     (case exec physics combinations a w of None \<Rightarrow> None | Some w' \<Rightarrow> run physics combinations as w')"

definition start_world :: "('p, 'r) world" where
  "start_world = \<lparr>shared = new_model, main_at = AtDefine 0, workers = [],
                  recorded = [], raced = False\<rparr>"

text \<open>
  What the trials give when each worker finishes before the next trial begins: the
  shared object after \<open>i\<close> trials, and the outcome of trial \<open>i\<close> by its own worker.
\<close>

definition seq_model ::
  "(('p, 'r) model \<Rightarrow> 'e + 'r) \<Rightarrow> ('p \<times> 'p \<times> 'p \<times> 'p \<times> 'p) list \<Rightarrow> nat \<Rightarrow> ('p, 'r) model" where
  "seq_model physics combinations i =
     fold (\<lambda>c self. run_cp physics (apply_params self c)) (take i combinations) new_model"

definition own_outcome ::
  "(('p, 'r) model \<Rightarrow> 'e + 'r) \<Rightarrow> ('p \<times> 'p \<times> 'p \<times> 'p \<times> 'p) list \<Rightarrow> nat \<Rightarrow> 'r outcome" where
  "own_outcome physics combinations i =
     undisturbed physics (apply_params (seq_model physics combinations i) (combinations ! i))"

text \<open>
  The invariant of a run in which no deadline passes: every earlier worker has
  finished, at most the current one is in flight, and then only inside \<open>join\<close>.
\<close>

definition in_sequence ::
  "(('p, 'r) model \<Rightarrow> 'e + 'r) \<Rightarrow> ('p \<times> 'p \<times> 'p \<times> 'p \<times> 'p) list \<Rightarrow> ('p, 'r) world \<Rightarrow> bool" where
  "in_sequence physics combinations w \<longleftrightarrow>
     \<not> raced w \<and>
     (case main_at w of
        AtDefine i \<Rightarrow>
          i \<le> length combinations \<and> shared w = seq_model physics combinations i \<and>
          workers w = replicate i Finished \<and>
          recorded w = map (own_outcome physics combinations) [0 ..< i]
      | AtStart i \<Rightarrow>
          i < length combinations \<and>
          shared w = apply_params (seq_model physics combinations i) (combinations ! i) \<and>
          workers w = replicate i Finished \<and>
          recorded w = map (own_outcome physics combinations) [0 ..< i]
      | AtJoin i \<Rightarrow>
          i < length combinations \<and>
          recorded w = map (own_outcome physics combinations) [0 ..< i] \<and>
          ((workers w = replicate i Finished @ [Started] \<and>
            shared w = apply_params (seq_model physics combinations i) (combinations ! i)) \<or>
           (workers w = replicate i Finished @
              [Computing (apply_params (seq_model physics combinations i) (combinations ! i))] \<and>
            shared w = apply_params (seq_model physics combinations i) (combinations ! i)) \<or>
           (workers w = replicate i Finished @ [Finished] \<and>
            shared w = seq_model physics combinations (Suc i)))
      | AtCheck i \<Rightarrow>
          i < length combinations \<and>
          recorded w = map (own_outcome physics combinations) [0 ..< i] \<and>
          workers w = replicate i Finished @ [Finished] \<and>
          shared w = seq_model physics combinations (Suc i))"

text \<open>A physics call to run the steps on: it raises for \<open>tau_0 = 100\<close>.\<close>

definition demo_physics :: "(int, int list) model \<Rightarrow> unit + int list" where
  "demo_physics self =
     (case p_tau_0 self of None \<Rightarrow> Inl () | Some t \<Rightarrow> if t = 100 then Inl () else Inr [t, t])"

text \<open>
  Two trials for \<open>demo_physics\<close>, which returns for the first and raises for the
  second. In \<open>late_schedule\<close> the first worker outlives its deadline and writes its
  result after the second worker has finished and before the main thread reads it; in
  \<open>calm_schedule\<close> each worker finishes in time.
\<close>

definition two_trials :: "(int \<times> int \<times> int \<times> int \<times> int) list" where
  "two_trials = [(50, 1, 50, 3, 16), (50, 1, 100, 3, 16)]"

definition late_schedule :: "action list" where
  "late_schedule =
     [MainStep, MainStep, WorkerRead 0, Deadline, MainStep,
      MainStep, MainStep, WorkerRead 1, WorkerWrite 1, MainStep, WorkerWrite 0, MainStep]"

definition calm_schedule :: "action list" where
  "calm_schedule =
     [MainStep, MainStep, WorkerRead 0, WorkerWrite 0, MainStep, MainStep,
      MainStep, MainStep, WorkerRead 1, WorkerWrite 1, MainStep, MainStep]"

text \<open>
  One trial taken alone. It begins before \<open>thread.start()\<close> with \<open>n\<close> threads
  created earlier, all finished, the object \<open>self\<close> and the outcomes \<open>before\<close>.
  While the main thread is in \<open>join\<close> or before the check, the new worker is the
  only one in flight: it has not read the parameters yet, or it has read \<open>self\<close>,
  or it has finished and the shared object is \<open>run_cp\<close> of \<open>self\<close>.
\<close>

definition at_stage ::
  "(('p, 'r) model \<Rightarrow> 'e + 'r) \<Rightarrow> ('p, 'r) model \<Rightarrow> nat \<Rightarrow> ('p, 'r) world \<Rightarrow> bool" where
  "at_stage physics self n w \<longleftrightarrow>
     (workers w = replicate n Finished @ [Started] \<and> shared w = self) \<or>
     (workers w = replicate n Finished @ [Computing self] \<and> shared w = self) \<or>
     (workers w = replicate n Finished @ [Finished] \<and> shared w = run_cp physics self)"

text \<open>
  The invariant of the trial \<open>i\<close>, whatever the schedule: the main thread reaches the
  check with the worker still unfinished only when the deadline has passed
  (\<open>overdue\<close>), and after the check one outcome more is recorded, that of the
  undisturbed trial or, if the deadline has passed, the timeout. Nothing is said of the
  later iterations.
\<close>

definition in_trial ::
  "(('p, 'r) model \<Rightarrow> 'e + 'r) \<Rightarrow> nat \<Rightarrow> ('p, 'r) model \<Rightarrow> 'r outcome list \<Rightarrow> nat \<Rightarrow> bool \<Rightarrow>
   ('p, 'r) world \<Rightarrow> bool" where
  "in_trial physics i self before n overdue w \<longleftrightarrow>
     (case main_at w of
        AtDefine j \<Rightarrow>
          Suc i < j \<or>
          (j = Suc i \<and>
           (recorded w = before @ [undisturbed physics self] \<or>
            (overdue \<and> recorded w = before @ [TimedOut])))
      | AtStart j \<Rightarrow>
          i < j \<or>
          (j = i \<and> workers w = replicate n Finished \<and> shared w = self \<and> recorded w = before)
      | AtJoin j \<Rightarrow>
          i < j \<or> (j = i \<and> recorded w = before \<and> at_stage physics self n w)
      | AtCheck j \<Rightarrow>
          i < j \<or>
          (j = i \<and> recorded w = before \<and> at_stage physics self n w \<and>
           (overdue \<or> last (workers w) = Finished)))"

text \<open>
  Schedules and states to run single trials on. In \<open>overdue_schedule\<close> the deadline of
  the first trial passes while its worker computes, and the worker writes its result
  before the main thread asks \<open>is_alive()\<close>. \<open>first_start\<close> is the state before
  the first \<open>thread.start()\<close>, \<open>second_start\<close> the one before the second, after a
  first trial that succeeded. A trial in time is start, the worker's read and write,
  \<open>join\<close> returning and the check; a trial timed out is start, the worker's read,
  the deadline and the check.
\<close>

definition overdue_schedule :: "action list" where
  "overdue_schedule = [MainStep, MainStep, WorkerRead 0, Deadline, WorkerWrite 0, MainStep]"

definition first_start :: "(int, int list) world" where
  "first_start = \<lparr>shared = define_params new_model 50 1 50 3 16, main_at = AtStart 0,
                  workers = [], recorded = [], raced = False\<rparr>"

definition second_start :: "(int, int list) world" where
  "second_start =
     \<lparr>shared = define_params (new_model\<lparr>model_output := Some [50, 50]\<rparr>) 50 1 100 3 16,
      main_at = AtStart 1, workers = [Finished], recorded = [Success [50, 50]], raced = False\<rparr>"

definition in_time_trial :: "nat \<Rightarrow> action list" where
  "in_time_trial i = [MainStep, WorkerRead i, WorkerWrite i, MainStep, MainStep]"

definition timed_out_trial :: "nat \<Rightarrow> action list" where
  "timed_out_trial i = [MainStep, WorkerRead i, Deadline, MainStep]"

section \<open>Properties of \<open>get_top\<close>\<close>

lemma find_pos_Some:
  "find_pos v ts j0 = Some j \<Longrightarrow>
     j0 \<le> j \<and> j - j0 < length ts \<and> ts ! (j - j0) < v \<and> (\<forall>t \<in> set (take (j - j0) ts). v \<le> t)"
proof (induction ts arbitrary: j0)
  case Nil
  then show ?case by simp
next
  case (Cons t ts)
  show ?case
  proof (cases "t < v")
    case True
    with Cons.prems show ?thesis by simp
  next
    case False
    with Cons.prems have rec: "find_pos v ts (Suc j0) = Some j" by simp
    from Cons.IH [OF rec] have *: "Suc j0 \<le> j" "j - Suc j0 < length ts"
      "ts ! (j - Suc j0) < v" "\<forall>t \<in> set (take (j - Suc j0) ts). v \<le> t" by auto
    from * have eq: "j - j0 = Suc (j - Suc j0)" by arith
    from * False show ?thesis unfolding eq by auto
  qed
qed

lemma sorted_list_insert:
  fixes tv :: "'a::linorder list"
  assumes s: "sorted_wrt (\<ge>) tv" and j: "j < length tv" and lt: "tv ! j < v"
    and ge: "\<forall>t \<in> set (take j tv). v \<le> t"
  shows "sorted_wrt (\<ge>) (list_insert j v tv)"
proof -
  from s have s': "sorted_wrt (\<ge>) (take j tv @ drop j tv)" by simp
  have d: "drop j tv = tv ! j # drop (Suc j) tv" using j by (simp add: Cons_nth_drop_Suc)
  from s' have a: "sorted_wrt (\<ge>) (take j tv)" and b: "sorted_wrt (\<ge>) (drop j tv)"
    and c: "\<forall>x\<in>set (take j tv). \<forall>y\<in>set (drop j tv). y \<le> x"
    unfolding sorted_wrt_append by auto
  from b d have "\<forall>y \<in> set (drop (Suc j) tv). y \<le> tv ! j" by simp
  with lt have below: "\<forall>y \<in> set (drop j tv). y \<le> v" unfolding d by auto
  show ?thesis unfolding list_insert_def sorted_wrt_append
    using a b c ge below by auto
qed

lemma top_inv_step:
  assumes inv: "top_inv xs i st"
  shows "top_inv xs (Suc i) (get_top_step n st i (xs ! i))"
proof -
  obtain tv ti where st: "st = (tv, ti)" by (cases st)
  from inv st have s: "sorted_wrt (\<ge>) tv" and m: "tv = map (\<lambda>k. xs ! k) ti"
    and r: "\<forall>k \<in> set ti. k < i" by (auto simp: top_inv_def)
  have r': "\<forall>k \<in> set ti. k < Suc i" using r by auto
  have base: "top_inv xs (Suc i) (tv, ti)" using s m r' by (simp add: top_inv_def)
  have drop_last: "top_inv xs (Suc i) (butlast a, butlast b)" if "top_inv xs (Suc i) (a, b)" for a b
  proof -
    from that have 1: "sorted_wrt (\<ge>) a" and 2: "a = map (\<lambda>k. xs ! k) b"
      and 3: "\<forall>k \<in> set b. k < Suc i"
      by (auto simp: top_inv_def)
    have "sorted_wrt (\<ge>) (butlast a)"
      using 1 by (cases a rule: rev_cases) (auto simp: sorted_wrt_append)
    moreover have "butlast a = map (\<lambda>k. xs ! k) (butlast b)" using 2 by (simp add: map_butlast)
    moreover have "\<forall>k \<in> set (butlast b). k < Suc i" using 3 by (auto dest: in_set_butlastD)
    ultimately show ?thesis by (simp add: top_inv_def)
  qed
  have ins: "top_inv xs (Suc i) (list_insert j (xs ! i) tv, list_insert j i ti)"
    if "find_pos (xs ! i) tv 0 = Some j" for j
  proof -
    from find_pos_Some [OF that] have j: "j < length tv" and lt: "tv ! j < xs ! i"
      and ge: "\<forall>t \<in> set (take j tv). xs ! i \<le> t" by auto
    have "sorted_wrt (\<ge>) (list_insert j (xs ! i) tv)" by (rule sorted_list_insert [OF s j lt ge])
    moreover have "list_insert j (xs ! i) tv = map (\<lambda>k. xs ! k) (list_insert j i ti)"
      unfolding list_insert_def m by (simp add: take_map drop_map)
    moreover have "\<forall>k \<in> set (list_insert j i ti). k < Suc i"
      unfolding list_insert_def using r' by (auto dest: in_set_takeD in_set_dropD)
    ultimately show ?thesis by (simp add: top_inv_def)
  qed
  show ?thesis
  proof (cases "tv = []")
    case True
    with m have "ti = []" by simp
    with True show ?thesis by (simp add: st get_top_step_def top_inv_def)
  next
    case False
    show ?thesis
    proof (cases "find_pos (xs ! i) tv 0")
      case None
      with False base drop_last [OF base] show ?thesis
        by (simp add: st get_top_step_def)
    next
      case (Some j)
      with False base ins [OF Some] drop_last [OF ins [OF Some]] show ?thesis
        by (simp add: st get_top_step_def)
    qed
  qed
qed

lemma top_inv_foldl:
  "top_inv xs 0 st \<Longrightarrow>
   top_inv xs m (foldl (\<lambda>st i. get_top_step n st i (xs ! i)) st [0 ..< m])"
proof (induction m)
  case 0
  then show ?case by simp
next
  case (Suc m)
  then show ?case by (simp add: top_inv_step)
qed

lemma top_inv_get_top: "top_inv xs (length xs) (get_top xs n)"
  unfolding get_top_def by (rule top_inv_foldl) (simp add: top_inv_def)

text \<open>
  Claim C1 says that \<open>get_top(values, n)\<close> returns \<open>min(n, len(values))\<close> values,
  all of them when the list is no longer than \<open>n\<close> and none when \<open>n = 0\<close>. The
  code does not: a value that is not strictly above some value already kept is never
  stored, since the inner loop only inserts before a smaller entry and nothing appends
  after it, and the first element is stored before \<open>num_values\<close> is looked at. On
  \<open>[5, 3]\<close> with \<open>n = 2\<close> one value comes back, and on \<open>[7]\<close> with \<open>n = 0\<close>
  the result is not empty.
\<close>

theorem get_top_length_failing:
  "get_top [5, 3 :: int] 2 = ([5], [0]) \<and> get_top [7 :: int] 0 = ([7], [0])"
  by (simp add: get_top_def get_top_step_def list_insert_def upt_rec)

text \<open>
  Claim C2 says that on equal values the first position met is chosen, so that
  \<open>get_top([5,5,3], 2)\<close> is \<open>([5,5], [0,1])\<close>. The code returns \<open>([5], [0])\<close>:
  the second \<open>5\<close> is not strictly above the first, so it is never stored.
\<close>

theorem get_top_tie_failing:
  "get_top [5, 5, 3 :: int] 2 = ([5], [0])"
  by (simp add: get_top_def get_top_step_def list_insert_def upt_rec)

text \<open>
  Claim C3: for every input list and every \<open>n\<close>, the values returned by \<open>get_top\<close>
  are in descending (or equal) order, the two returned lists have the same length, and
  at every position \<open>i\<close> the returned index is a position of the input whose element
  is the returned value: \<open>values[top_indices[i]] == top_values[i]\<close>.
\<close>

theorem get_top_sorted_and_indexed:
  "sorted_wrt (\<ge>) (fst (get_top values n)) \<and>
   length (snd (get_top values n)) = length (fst (get_top values n)) \<and>
   (\<forall>i < length (fst (get_top values n)).
      snd (get_top values n) ! i < length values \<and>
      values ! (snd (get_top values n) ! i) = fst (get_top values n) ! i)"
proof -
  from top_inv_get_top [of "values" n]
  have s: "sorted_wrt (\<ge>) (fst (get_top values n))"
    and m: "fst (get_top values n) = map (\<lambda>k. values ! k) (snd (get_top values n))"
    and r: "\<forall>k \<in> set (snd (get_top values n)). k < length values"
    by (auto simp: top_inv_def)
  have len: "length (snd (get_top values n)) = length (fst (get_top values n))"
    using arg_cong [OF m, of length] by simp
  have "snd (get_top values n) ! i < length values \<and>
        values ! (snd (get_top values n) ! i) = fst (get_top values n) ! i"
    if "i < length (fst (get_top values n))" for i
  proof -
    from that len have i: "i < length (snd (get_top values n))" by simp
    then have "snd (get_top values n) ! i \<in> set (snd (get_top values n))" by simp
    with r have "snd (get_top values n) ! i < length values" by blast
    moreover have "fst (get_top values n) ! i = values ! (snd (get_top values n) ! i)"
      by (subst m) (simp add: i)
    ultimately show ?thesis by simp
  qed
  with s len show ?thesis by blast
qed

theorem get_top_sorted_and_indexed_witness:
  "get_top [3, 1, 4, 1, 5, 9, 2, 6 :: int] 3 = ([9, 6, 5], [5, 7, 4]) \<and>
   sorted_wrt (\<ge>) (fst (get_top [3, 1, 4, 1, 5, 9, 2, 6 :: int] 3)) \<and>
   (1::nat) < length (fst (get_top [3, 1, 4, 1, 5, 9, 2, 6 :: int] 3)) \<and>
   [3, 1, 4, 1, 5, 9, 2, 6 :: int] ! (snd (get_top [3, 1, 4, 1, 5, 9, 2, 6 :: int] 3) ! 1) =
     fst (get_top [3, 1, 4, 1, 5, 9, 2, 6 :: int] 3) ! 1"
proof -
  have run: "get_top [3, 1, 4, 1, 5, 9, 2, 6 :: int] 3 = ([9, 6, 5], [5, 7, 4])"
    by (simp add: get_top_def get_top_step_def list_insert_def upt_rec)
  have bound: "(1::nat) < length (fst (get_top [3, 1, 4, 1, 5, 9, 2, 6 :: int] 3))"
    by (simp add: run)
  from get_top_sorted_and_indexed [of "[3, 1, 4, 1, 5, 9, 2, 6 :: int]" 3] bound run
  show ?thesis by blast
qed

section \<open>Properties of \<open>dict_to_csv\<close>\<close>

lemma fold_err_append:
  "fold_err f (xs @ ys) s = (case fold_err f xs s of Inl e \<Rightarrow> Inl e | Inr s' \<Rightarrow> fold_err f ys s')"
  by (induction xs arbitrary: s) (auto split: sum.splits)

lemma map_err_keys:
  "(\<And>p. p \<in> set d \<Longrightarrow> f (fst p) = Inr (g p)) \<Longrightarrow> map_err f (map fst d) = Inr (map g d)"
  by (induction d) auto

lemma dict_get_append_fresh:
  "k \<notin> fst ` set pre \<Longrightarrow> dict_get (pre @ (k, v) # rest) k = Inr v"
  by (induction pre) (auto simp: dict_get_def)

lemma dict_set_append_fresh:
  "k \<notin> fst ` set pre \<Longrightarrow> dict_set k v (pre @ (k, w) # rest) = pre @ (k, v) # rest"
  by (induction pre) auto

lemma wrap_scalars_suffix:
  "distinct (map fst (pre @ rest)) \<Longrightarrow>
   wrap_scalars (map fst rest) (pre @ rest) = (pre @ wrapped rest, None)"
proof (induction rest arbitrary: pre)
  case Nil
  then show ?case by (simp add: wrapped_def)
next
  case (Cons p rest)
  obtain k v where p: "p = (k, v)" by (cases p)
  from Cons.prems p have fresh: "k \<notin> fst ` set pre" by auto
  from Cons.prems p have d': "distinct (map fst ((pre @ [(k, w)]) @ rest))" for w by auto
  show ?case
  proof (cases v)
    case (Scalar x)
    from Cons.IH [OF d' [of "PList [x]"]] show ?thesis
      by (simp add: p Scalar dict_get_append_fresh [OF fresh] dict_set_append_fresh [OF fresh]
          wrapped_def)
  next
    case (PList l)
    from Cons.IH [OF d' [of "PList l"]] show ?thesis
      by (simp add: p PList dict_get_append_fresh [OF fresh] wrapped_def)
  qed
qed

lemma wrap_scalars_all:
  "distinct (map fst d) \<Longrightarrow> wrap_scalars (map fst d) d = (wrapped d, None)"
  using wrap_scalars_suffix [of "[]" d] by simp

lemma dict_get_member:
  "distinct (map fst d) \<Longrightarrow> p \<in> set d \<Longrightarrow> dict_get d (fst p) = Inr (snd p)"
  by (cases p) (simp add: dict_get_def)

lemma dict_get_wrapped:
  assumes "distinct (map fst d)" "p \<in> set d"
  shows "dict_get (wrapped d) (fst p) = Inr (PList (as_list (snd p)))"
proof -
  have 1: "distinct (map fst (wrapped d))" using assms(1) by (simp add: wrapped_def comp_def)
  have 2: "(fst p, PList (as_list (snd p))) \<in> set (wrapped d)"
    using assms(2) by (auto simp: wrapped_def)
  from dict_get_member [OF 1 2] show ?thesis by simp
qed

lemma csv_field_wrapped:
  assumes "distinct (map fst d)" "p \<in> set d"
  shows "csv_field str (wrapped d) i (fst p) =
         Inr (if i < length (as_list (snd p)) then str (as_list (snd p) ! i) else [])"
  by (simp add: csv_field_def dict_get_wrapped [OF assms])

lemma write_row_wrapped:
  assumes "distinct (map fst d)"
  shows "write_row str (wrapped d) (map fst d) i written =
         Inr (written @ padded_row str d i @ [newline])"
proof -
  have "map_err (csv_field str (wrapped d) i) (map fst d) =
        Inr (map (\<lambda>p. if i < length (as_list (snd p)) then str (as_list (snd p) ! i) else []) d)"
    by (rule map_err_keys) (rule csv_field_wrapped [OF assms])
  then show ?thesis by (simp add: write_row_def padded_row_def)
qed

lemma write_rows_wrapped:
  assumes "distinct (map fst d)"
  shows "fold_err (write_row str (wrapped d) (map fst d)) [0 ..< n] written =
         Inr (written @ file_of_lines (map (padded_row str d) [0 ..< n]))"
  by (induction n) (simp_all add: file_of_lines_def fold_err_append write_row_wrapped [OF assms])

lemma lens_wrapped:
  assumes "distinct (map fst d)"
  shows "map_err (\<lambda>header. case dict_get (wrapped d) header of Inl e \<Rightarrow> Inl e | Inr v \<Rightarrow> py_len v)
           (map fst d) = Inr (map (\<lambda>p. length (as_list (snd p))) d)"
  by (rule map_err_keys) (simp add: dict_get_wrapped [OF assms])

lemma py_max_Max: "xs \<noteq> [] \<Longrightarrow> py_max xs = Inr (Max (set xs))"
proof (cases xs)
  case Nil
  assume "xs \<noteq> []"
  with Nil show ?thesis by simp
next
  case (Cons a list)
  show ?thesis unfolding Cons py_max.simps Max.set_eq_fold ..
qed

lemma dict_to_csv_result:
  assumes dist: "distinct (map fst d)"
  shows "dict_to_csv str d =
         (wrapped d,
          if d = [] then Inl ValueError
          else Inr (file_of_lines
                 (join '','' (map fst d) # map (padded_row str d) [0 ..< max_list_length d])))"
proof (cases "d = []")
  case True
  then show ?thesis by (simp add: dict_to_csv_def wrapped_def)
next
  case False
  then have ne: "map (\<lambda>p. length (as_list (snd p))) d \<noteq> []" by simp
  show ?thesis
    using False
    by (simp add: dict_to_csv_def wrap_scalars_all [OF dist] lens_wrapped [OF dist]
        py_max_Max [OF ne] write_rows_wrapped [OF dist] max_list_length_def file_of_lines_def)
qed

lemma dict_to_csv_example:
  "dict_to_csv str_int [(''a'', PList [1, 2]), (''b'', PList [3])] =
     ([(''a'', PList [1, 2]), (''b'', PList [3])],
      Inr (''a,b'' @ [newline] @ ''1,3'' @ [newline] @ ''2,'' @ [newline]))"
  by (simp add: dict_to_csv_def dict_get_def write_row_def csv_field_def str_int_def
      str_nat.simps digit_char_def upt_rec)

text \<open>
  Claim C5, as stated, covers the mapping with no key at all (each of its values is a
  list or a scalar, there being none), and there the code raises: \<open>max\<close> of the
  empty list of lengths is a \<open>ValueError\<close>.
\<close>

theorem dict_to_csv_empty_raises:
  "snd (dict_to_csv str_int []) = Inl ValueError"
  by (simp add: dict_to_csv_def)

text \<open>
  Claim C5, amended: for every mapping with at least one key, whose values are lists
  or scalars, \<open>dict_to_csv\<close> writes one header line, the keys in iteration order
  joined by commas, and then exactly as many data lines as the longest list has
  elements; row \<open>i\<close> holds, for each column, the string of its \<open>i\<close>-th element,
  or an empty field when the column has no element \<open>i\<close>. Writing
  \<open>{"a":[1,2], "b":[3]}\<close> gives the lines \<open>a,b\<close>, \<open>1,3\<close> and \<open>2,\<close>. The
  lists may be empty; a claim about non-empty lists follows.
\<close>

theorem dict_to_csv_lines:
  "(distinct (map fst d) \<and> d \<noteq> [] \<longrightarrow>
      snd (dict_to_csv str d) =
        Inr (file_of_lines (join '','' (map fst d) # map (padded_row str d) [0 ..< max_list_length d]))
      \<and> length (map (padded_row str d) [0 ..< max_list_length d]) = max_list_length d) \<and>
   snd (dict_to_csv str_int [(''a'', PList [1, 2]), (''b'', PList [3])]) =
     Inr (file_of_lines [''a,b'', ''1,3'', ''2,''])"
proof -
  have "snd (dict_to_csv str d) =
        Inr (file_of_lines (join '','' (map fst d) # map (padded_row str d) [0 ..< max_list_length d]))"
    if "distinct (map fst d)" "d \<noteq> []"
    using that by (simp add: dict_to_csv_result)
  moreover have "snd (dict_to_csv str_int [(''a'', PList [1, 2]), (''b'', PList [3])]) =
     Inr (file_of_lines [''a,b'', ''1,3'', ''2,''])"
    by (simp add: dict_to_csv_example file_of_lines_def)
  ultimately show ?thesis by simp
qed

theorem dict_to_csv_lines_witness:
  "distinct (map fst [(''n'', Scalar (16 :: int)), (''b'', PList [1, 2])]) \<and>
   [(''n'', Scalar (16 :: int)), (''b'', PList [1, 2])] \<noteq> [] \<and>
   snd (dict_to_csv str_int [(''n'', Scalar 16), (''b'', PList [1, 2])]) =
     Inr (file_of_lines [''n,b'', ''16,1'', '',2''])"
proof -
  have m: "max_list_length [(''n'', Scalar (16 :: int)), (''b'', PList [1, 2])] = 2"
    by (simp add: max_list_length_def)
  have u: "[0 ..< 2] = [0, 1]" by (simp add: upt_rec)
  from dict_to_csv_lines [of "[(''n'', Scalar (16 :: int)), (''b'', PList [1, 2])]" str_int]
  show ?thesis
    by (simp add: m u padded_row_def str_int_def str_nat.simps digit_char_def)
qed

text \<open>
  Claim C10: \<open>dict_to_csv\<close> mutates the caller's dictionary. After a call, every key
  whose value was not a list holds the one-element list of that value, and every other
  key holds the value it had; the keys and their order are the same.
\<close>

theorem dict_to_csv_mutates_input:
  "distinct (map fst d) \<Longrightarrow>
   map fst (fst (dict_to_csv str d)) = map fst d \<and>
   (\<forall>p \<in> set d.
      dict_get (fst (dict_to_csv str d)) (fst p) =
        Inr (case snd p of Scalar v \<Rightarrow> PList [v] | PList l \<Rightarrow> PList l))"
proof -
  assume dist: "distinct (map fst d)"
  have keys: "map fst (fst (dict_to_csv str d)) = map fst d"
    by (simp add: dict_to_csv_result [OF dist] wrapped_def comp_def)
  have "dict_get (fst (dict_to_csv str d)) (fst p) =
        Inr (case snd p of Scalar v \<Rightarrow> PList [v] | PList l \<Rightarrow> PList l)" if "p \<in> set d" for p
    using dict_get_wrapped [OF dist that]
    by (cases "snd p") (simp_all add: dict_to_csv_result [OF dist])
  with keys show ?thesis by blast
qed

theorem dict_to_csv_mutates_input_witness:
  "distinct (map fst [(''n'', Scalar (16 :: int)), (''b'', PList [1, 2])]) \<and>
   fst (dict_to_csv str_int [(''n'', Scalar 16), (''b'', PList [1, 2])]) =
     [(''n'', PList [16]), (''b'', PList [1, 2])] \<and>
   dict_get (fst (dict_to_csv str_int [(''n'', Scalar 16), (''b'', PList [1, 2])])) ''n'' =
     Inr (PList [16]) \<and>
   dict_get (fst (dict_to_csv str_int [(''n'', Scalar 16), (''b'', PList [1, 2])])) ''b'' =
     Inr (PList [1, 2])"
proof -
  have dist: "distinct (map fst [(''n'', Scalar (16 :: int)), (''b'', PList [1, 2])])" by simp
  have run: "fst (dict_to_csv str_int [(''n'', Scalar 16), (''b'', PList [1, 2])]) =
     [(''n'', PList [16]), (''b'', PList [1, 2])]"
    by (simp add: dict_to_csv_def dict_get_def Let_def)
  from dict_to_csv_mutates_input [OF dist, of str_int] dist run
  show ?thesis by simp
qed

section \<open>Properties of \<open>csv_to_dict\<close>\<close>

lemma fold_err_upt_inv:
  assumes init: "P 0 s0"
    and step: "\<And>k s. k < n \<Longrightarrow> P k s \<Longrightarrow> \<exists>s'. f k s = Inr s' \<and> P (Suc k) s'"
  shows "\<exists>s'. fold_err f [0 ..< n] s0 = Inr s' \<and> P n s'"
  using step
proof (induction n)
  case 0
  with init show ?case by simp
next
  case (Suc n)
  have "\<exists>s'. fold_err f [0 ..< n] s0 = Inr s' \<and> P n s'"
    by (rule Suc.IH) (use Suc.prems in auto)
  then obtain s1 where s1: "fold_err f [0 ..< n] s0 = Inr s1" "P n s1" by blast
  from Suc.prems [of n s1] s1 obtain s2 where "f n s1 = Inr s2" "P (Suc n) s2" by auto
  with s1 show ?case by (simp add: fold_err_append)
qed




lemma dict_set_fresh: "k \<notin> fst ` set d \<Longrightarrow> dict_set k v d = d @ [(k, v)]"
  by (induction d) auto













section \<open>Properties of \<open>round_sf\<close>\<close>


section \<open>Properties of the sweep\<close>

lemma length_itertools_product:
  "length (itertools_product xss) = prod_list (map length xss)"
  by (induction xss) (simp_all add: length_concat comp_def sum_list_triv)

lemma set_itertools_product:
  "set (itertools_product xss) = {c. list_all2 (\<lambda>x xs. x \<in> set xs) c xss}"
proof (induction xss)
  case Nil
  then show ?case by auto
next
  case (Cons xs xss)
  show ?case
  proof (rule set_eqI)
    fix c
    show "c \<in> set (itertools_product (xs # xss)) \<longleftrightarrow>
          c \<in> {c. list_all2 (\<lambda>x xs. x \<in> set xs) c (xs # xss)}"
      using Cons.IH by (cases c) (auto simp: list_all2_Cons2)
  qed
qed

lemma length_combination:
  "c \<in> set (itertools_product xss) \<Longrightarrow> length c = length xss"
  by (simp add: set_itertools_product list_all2_lengthD)

lemma distinct_prefixed:
  "distinct xs \<Longrightarrow> distinct cs \<Longrightarrow> distinct (concat (map (\<lambda>x. map ((#) x) cs) xs))"
  by (induction xs) (auto simp: distinct_map)

lemma distinct_itertools_product:
  "\<forall>xs \<in> set xss. distinct xs \<Longrightarrow> distinct (itertools_product xss)"
  by (induction xss) (simp_all add: distinct_prefixed)

lemma digit_char_in: "d < 10 \<Longrightarrow> digit_char d \<in> set ''0123456789''"
  unfolding digit_char_def by (rule nth_mem) simp

lemma digit_value_digit_char: "d < 10 \<Longrightarrow> digit_value (digit_char d) = Some d"
proof -
  assume "d < 10"
  then have "d \<in> set [0 ..< 10]" by simp
  moreover have "\<forall>d \<in> set [0 ..< 10]. digit_value (digit_char d) = Some d"
    by (simp add: upt_rec digit_char_def digit_value_def)
  ultimately show ?thesis by blast
qed

lemma str_nat_digits: "set (str_nat n) \<subseteq> set ''0123456789''"
proof (induction n rule: str_nat.induct)
  case (1 n)
  show ?case
  proof (cases "n < 10")
    case True
    then show ?thesis using digit_char_in [of n] by (subst str_nat.simps) simp
  next
    case False
    with 1 have "set (str_nat (n div 10)) \<subseteq> set ''0123456789''" by simp
    moreover have "digit_char (n mod 10) \<in> set ''0123456789''" by (rule digit_char_in) simp
    ultimately show ?thesis using False by (subst str_nat.simps) simp
  qed
qed

lemma digits_value_append:
  "digits_value (xs @ ys) acc =
     (case digits_value xs acc of None \<Rightarrow> None | Some a \<Rightarrow> digits_value ys a)"
  by (induction xs arbitrary: acc) (auto split: option.splits)

lemma digits_value_str_nat: "digits_value (str_nat n) 0 = Some n"
proof (induction n rule: str_nat.induct)
  case (1 n)
  show ?case
  proof (cases "n < 10")
    case True
    then show ?thesis by (subst str_nat.simps) (simp add: digit_value_digit_char)
  next
    case False
    with 1 have "digits_value (str_nat (n div 10)) 0 = Some (n div 10)" by simp
    then show ?thesis using False
      by (subst str_nat.simps) (simp add: digits_value_append digit_value_digit_char)
  qed
qed

lemma digits_value_zfill: "digits_value (zfill w s) 0 = digits_value s 0"
proof -
  have "digits_value (replicate k (CHR ''0'') @ s) 0 = digits_value s 0" for k
    by (induction k) (simp_all add: digit_value_def)
  then show ?thesis by (simp add: zfill_def)
qed

lemma index_str_value: "digits_value (index_str i) 0 = Some (Suc i)"
proof -
  have "str_int (int i + 1) = str_nat (Suc i)"
    by (simp add: str_int_def nat_add_distrib)
  then show ?thesis by (simp add: index_str_def digits_value_zfill digits_value_str_nat)
qed

lemma index_str_digits: "set (index_str i) \<subseteq> set ''0123456789''"
proof -
  have "str_int (int i + 1) = str_nat (Suc i)"
    by (simp add: str_int_def nat_add_distrib)
  then show ?thesis using str_nat_digits [of "Suc i"]
    by (auto simp: index_str_def zfill_def)
qed

lemma file_suffix_head:
  "sa \<in> set file_suffixes \<Longrightarrow> \<exists>c cs. sa = c # cs \<and> c \<notin> set ''0123456789''"
  by (auto simp: file_suffixes_def)

lemma takeWhile_digits:
  assumes "set s \<subseteq> D" "c \<notin> D"
  shows "takeWhile (\<lambda>x. x \<in> D) (s @ c # cs) = s"
  using assms by (induction s) auto

lemma results_path_inj:
  assumes "results_path index_1 index_2 i @ sa = results_path index_1 index_2 j @ sb"
    and "sa \<in> set file_suffixes" "sb \<in> set file_suffixes"
  shows "i = j"
proof -
  from assms have eq: "index_str i @ sa = index_str j @ sb"
    by (simp add: results_path_def)
  obtain c cs where 1: "sa = c # cs" "c \<notin> set ''0123456789''"
    using file_suffix_head [OF assms(2)] by blast
  obtain c' cs' where 2: "sb = c' # cs'" "c' \<notin> set ''0123456789''"
    using file_suffix_head [OF assms(3)] by blast
  have "index_str i = takeWhile (\<lambda>x. x \<in> set ''0123456789'') (index_str i @ c # cs)"
    using takeWhile_digits [OF index_str_digits 1(2)] by simp
  also have "\<dots> = takeWhile (\<lambda>x. x \<in> set ''0123456789'') (index_str j @ c' # cs')"
    using eq 1 2 by simp
  also have "\<dots> = index_str j"
    using takeWhile_digits [OF index_str_digits 2(2)] by simp
  finally have "digits_value (index_str i) 0 = digits_value (index_str j) 0" by simp
  then show ?thesis by (simp add: index_str_value)
qed

lemma five_names_length: "five_names names \<Longrightarrow> length names = 5"
proof -
  assume a: "five_names names"
  have c: "card {''tau_sat'', ''b'', ''tau_0'', ''gamma_0'', ''n''} = 5" by simp
  from a have "distinct names" by (simp add: five_names_def)
  then have "card (set names) = length names" by (rule distinct_card)
  moreover from a have "set names = {''tau_sat'', ''b'', ''tau_0'', ''gamma_0'', ''n''}"
    by (simp add: five_names_def)
  ultimately show ?thesis using c by simp
qed

lemma define_params_kw_ok:
  assumes names: "five_names names" and len: "length c = length names"
  shows "\<exists>self'. define_params_kw self (zip names c) = Inr self'"
proof -
  have keys: "fst ` set (zip names c) = set names"
    using len by (metis map_fst_zip set_map)
  have in_names: "\<exists>v. map_of (zip names c) k = Some v" if "k \<in> set names" for k
    using that keys by (cases "map_of (zip names c) k") (auto simp: map_of_eq_None_iff)
  from names have mem: "''tau_sat'' \<in> set names" "''b'' \<in> set names" "''tau_0'' \<in> set names"
    "''gamma_0'' \<in> set names" "''n'' \<in> set names" by (simp_all add: five_names_def)
  from in_names [OF mem(1)] in_names [OF mem(2)] in_names [OF mem(3)] in_names [OF mem(4)]
    in_names [OF mem(5)]
  obtain v1 v2 v3 v4 v5 where "map_of (zip names c) ''tau_sat'' = Some v1"
    "map_of (zip names c) ''b'' = Some v2" "map_of (zip names c) ''tau_0'' = Some v3"
    "map_of (zip names c) ''gamma_0'' = Some v4" "map_of (zip names c) ''n'' = Some v5"
    by blast
  moreover have "length (zip names c) = 5" using five_names_length [OF names] len by simp
  ultimately show ?thesis by (simp add: define_params_kw_def)
qed

lemma merge_fresh:
  "distinct (map fst b) \<Longrightarrow> fst ` set b \<inter> fst ` set a = {} \<Longrightarrow> merge a b = a @ b"
  unfolding merge_def
proof (induction b arbitrary: a)
  case Nil
  then show ?case by simp
next
  case (Cons p b)
  from Cons.prems have fresh: "fst p \<notin> fst ` set a" by auto
  have step: "dict_set (fst p) (snd p) a = a @ [p]" using dict_set_fresh [OF fresh] by simp
  from Cons.prems have "distinct (map fst b)" "fst ` set b \<inter> fst ` set (a @ [p]) = {}" by auto
  from Cons.IH [OF this] show ?case by (simp add: step)
qed

lemma py_first_map: "xs \<noteq> [] \<Longrightarrow> py_first (map f xs) = Inr (f (hd xs))"
  by (cases xs) (simp_all add: py_first_def)

lemma py_last_map: "xs \<noteq> [] \<Longrightarrow> py_last (map f xs) = Inr (f (last xs))"
  by (cases xs) (simp_all add: py_last_def last_map)

lemma grain_step_result:
  assumes "history \<noteq> []"
  shows "grain_step angles history i
           [(''phi_1_start'', a1), (''phi_1_end'', a2), (''Phi_start'', a3),
            (''Phi_end'', a4), (''phi_2_start'', a5), (''phi_2_end'', a6)] =
         Inr [(''phi_1_start'', a1 @ [fst (angles (hd history) i)]),
              (''phi_1_end'', a2 @ [fst (angles (last history) i)]),
              (''Phi_start'', a3 @ [fst (snd (angles (hd history) i))]),
              (''Phi_end'', a4 @ [fst (snd (angles (last history) i))]),
              (''phi_2_start'', a5 @ [snd (snd (angles (hd history) i))]),
              (''phi_2_end'', a6 @ [snd (snd (angles (last history) i))])]"
  using assms
  by (simp add: grain_step_def py_first_map py_last_map append_to_def dict_get_def)

lemma grain_loop_result:
  assumes "history \<noteq> []"
  shows "fold_err (grain_step angles history) indexes
           [(''phi_1_start'', a1), (''phi_1_end'', a2), (''Phi_start'', a3),
            (''Phi_end'', a4), (''phi_2_start'', a5), (''phi_2_end'', a6)] =
         Inr [(''phi_1_start'', a1 @ map (\<lambda>i. fst (angles (hd history) i)) indexes),
              (''phi_1_end'', a2 @ map (\<lambda>i. fst (angles (last history) i)) indexes),
              (''Phi_start'', a3 @ map (\<lambda>i. fst (snd (angles (hd history) i))) indexes),
              (''Phi_end'', a4 @ map (\<lambda>i. fst (snd (angles (last history) i))) indexes),
              (''phi_2_start'', a5 @ map (\<lambda>i. snd (snd (angles (hd history) i))) indexes),
              (''phi_2_end'', a6 @ map (\<lambda>i. snd (snd (angles (last history) i))) indexes)]"
proof (induction indexes arbitrary: a1 a2 a3 a4 a5 a6)
  case Nil
  show ?case by simp
next
  case (Cons i indexes)
  show ?case by (simp add: grain_step_result [OF assms] Cons.IH)
qed

lemma get_grain_dict_result:
  assumes "history \<noteq> []"
  shows "get_grain_dict angles history indexes =
         Inr [(''phi_1_start'', map (\<lambda>i. fst (angles (hd history) i)) indexes),
              (''phi_1_end'', map (\<lambda>i. fst (angles (last history) i)) indexes),
              (''Phi_start'', map (\<lambda>i. fst (snd (angles (hd history) i))) indexes),
              (''Phi_end'', map (\<lambda>i. fst (snd (angles (last history) i))) indexes),
              (''phi_2_start'', map (\<lambda>i. snd (snd (angles (hd history) i))) indexes),
              (''phi_2_end'', map (\<lambda>i. snd (snd (angles (last history) i))) indexes)]"
  unfolding get_grain_dict_def using grain_loop_result [OF assms, of angles indexes "[]" "[]" "[]" "[]" "[]" "[]"]
  by simp

lemma tensile_curve_result:
  "[] \<notin> set xs \<Longrightarrow> tensile_curve xs = Inr (map (\<lambda>s. rounded 5 (hd s)) xs)"
proof (induction xs)
  case Nil
  show ?case by (simp add: tensile_curve_def)
next
  case (Cons s xs)
  then obtain x t where s: "s = x # t" by (cases s) auto
  from Cons have "tensile_curve xs = Inr (map (\<lambda>s. rounded 5 (hd s)) xs)" by simp
  then show ?case
    by (simp add: tensile_curve_def s py_first_def round_sf_def rounded_def)
qed

lemma combined_dict_result:
  assumes good: "good_output out" and names: "five_names (map fst param_dict)"
  shows "combined_dict top_indexes param_dict out = Inr (param_dict @ result_columns top_indexes out)"
proof -
  from good have h: "out_history out \<noteq> []" and s1: "[] \<notin> set (out_strain out)"
    and s2: "[] \<notin> set (out_stress out)" by (simp_all add: good_output_def)
  from names have keys: "fst ` set param_dict = {''tau_sat'', ''b'', ''tau_0'', ''gamma_0'', ''n''}"
    by (simp add: five_names_def)
  let ?data = "[(''strain'', PList (map (\<lambda>s. rounded 5 (hd s)) (out_strain out))),
                (''stress'', PList (map (\<lambda>s. rounded 5 (hd s)) (out_stress out)))]"
  have m1: "merge param_dict ?data = param_dict @ ?data"
    by (rule merge_fresh) (simp_all add: keys)
  have m2: "merge (param_dict @ ?data) g = (param_dict @ ?data) @ g"
    if "map fst g = [''phi_1_start'', ''phi_1_end'', ''Phi_start'', ''Phi_end'', ''phi_2_start'', ''phi_2_end'']" for g
  proof (rule merge_fresh)
    show "distinct (map fst g)" unfolding that by simp
    have "fst ` set g = set (map fst g)" by simp
    then show "fst ` set g \<inter> fst ` set (param_dict @ ?data) = {}"
      unfolding that by (simp add: keys image_Un)
  qed
  show ?thesis
    by (simp add: combined_dict_def tensile_curve_result [OF s1] tensile_curve_result [OF s2]
        get_grain_dict_result [OF h] m1 m2 result_columns_def)
qed


lemma scalar_keys:
  "length c = length names \<Longrightarrow> map fst (map (\<lambda>p. (fst p, Scalar (snd p))) (zip names c)) = names"
  by (simp add: comp_def)

lemma marker_written:
  assumes names: "five_names names" and len: "length c = length names"
  shows "snd (dict_to_csv str (map (\<lambda>p. (fst p, Scalar (snd p))) (zip names c))) =
         Inr (marker_text str names c)"
proof -
  let ?pd = "map (\<lambda>p. (fst p, Scalar (snd p))) (zip names c)"
  have keys: "map fst ?pd = names" by (rule scalar_keys [OF len])
  have d: "distinct (map fst ?pd)" using names unfolding keys by (simp add: five_names_def)
  have ne: "zip names c \<noteq> []"
    using five_names_length [OF names] len by (cases names; cases c) auto
  then have ne': "?pd \<noteq> []" by simp
  have "set (map (\<lambda>p. length (as_list (snd p))) ?pd) = {1}"
    using ne by (cases "zip names c") (auto simp: comp_def)
  then have mx: "max_list_length ?pd = 1" by (simp add: max_list_length_def)
  have row: "padded_row str ?pd 0 = join '','' (map str c)"
  proof -
    have "map (\<lambda>p. if 0 < length (as_list (snd p)) then str (as_list (snd p) ! 0) else []) ?pd =
          map str (map snd (zip names c))"
      by (simp add: comp_def)
    also have "\<dots> = map str c" using len by simp
    finally show ?thesis by (simp only: padded_row_def)
  qed
  show ?thesis
    unfolding dict_to_csv_result [OF d] using ne'
    by (simp add: keys mx row marker_text_def del: map_map)
qed

lemma result_written:
  assumes names: "five_names names" and len: "length c = length names"
  shows "snd (dict_to_csv str (map (\<lambda>p. (fst p, Scalar (snd p))) (zip names c) @
                               result_columns top_indexes out)) =
         Inr (result_text str names c top_indexes out)"
proof -
  let ?pd = "map (\<lambda>p. (fst p, Scalar (snd p))) (zip names c)"
  let ?d = "?pd @ result_columns top_indexes out"
  have keys: "map fst ?pd = names" by (rule scalar_keys [OF len])
  have all: "map fst ?d = names @ map fst (result_columns top_indexes out)"
    using keys by simp
  have d: "distinct (map fst ?d)"
    unfolding all using names by (simp add: five_names_def result_columns_def)
  have ne: "?d \<noteq> []" by (simp add: result_columns_def)
  show ?thesis
    unfolding dict_to_csv_result [OF d] using ne
    by (simp only: if_False snd_conv all result_text_def Let_def)
qed

lemma sweep_step_file:
  assumes names: "five_names names" and len: "length (combinations ! i) = length names"
    and good: "case snd (seen i) of None \<Rightarrow> True | Some out \<Rightarrow> good_output out"
  shows "\<exists>self'. sweep_step str seen top_indexes index_1 index_2 names combinations i (self, fs) =
           Inr (self', fs @ [expected_file str seen top_indexes index_1 index_2 names combinations i])"
proof -
  let ?pd = "map (\<lambda>p. (fst p, Scalar (snd p))) (zip names (combinations ! i))"
  obtain self1 where dp: "define_params_kw self (zip names (combinations ! i)) = Inr self1"
    using define_params_kw_ok [OF names len] by blast
  obtain is_alive found where s: "seen i = (is_alive, found)" by (cases "seen i")
  have marker: "write_csv str ?pd path fs =
                Inr (fs @ [(path, marker_text str names (combinations ! i))])" for path
    by (simp add: write_csv_def marker_written [OF names len])
  show ?thesis
  proof (cases is_alive)
    case True
    then show ?thesis
      by (simp add: sweep_step_def dp s classify_def marker expected_file_def)
  next
    case False
    show ?thesis
    proof (cases found)
      case None
      with False show ?thesis
        by (simp add: sweep_step_def dp s classify_def get_results_def marker expected_file_def)
    next
      case (Some out)
      with good s have g: "good_output out" by simp
      have k: "five_names (map fst ?pd)" using names scalar_keys [OF len] by simp
      have w: "write_csv str (?pd @ result_columns top_indexes out) path fs =
               Inr (fs @ [(path, result_text str names (combinations ! i) top_indexes out)])" for path
        by (simp only: write_csv_def result_written [OF names len] sum.case)
      from False Some show ?thesis
        by (simp add: sweep_step_def dp s classify_def get_results_def expected_file_def
            combined_dict_result [OF g k] w del: map_map)
    qed
  qed
qed

lemma sweep_files:
  assumes names: "five_names (map fst domains)"
    and good: "good_seen seen (length (itertools_product (map snd domains)))"
  shows "\<exists>self. sweep str seen weights index_1 index_2 domains =
           Inr (self, map (expected_file str seen (snd (get_top weights 10)) index_1 index_2
                             (map fst domains) (itertools_product (map snd domains)))
                        [0 ..< length (itertools_product (map snd domains))])"
proof -
  let ?combos = "itertools_product (map snd domains)"
  let ?names = "map fst domains"
  let ?top = "snd (get_top weights 10)"
  let ?f = "sweep_step str seen ?top index_1 index_2 ?names ?combos"
  let ?e = "expected_file str seen ?top index_1 index_2 ?names ?combos"
  have "\<exists>s'. fold_err ?f [0 ..< length ?combos] (new_model, []) = Inr s' \<and>
          snd s' = map ?e [0 ..< length ?combos]"
  proof (rule fold_err_upt_inv [where P = "\<lambda>k s. snd s = map ?e [0 ..< k]"])
    show "snd (new_model, []) = map ?e [0 ..< 0]" by simp
  next
    fix k and s :: "(rat, 'a cp_output) model \<times> files"
    assume k: "k < length ?combos" and inv: "snd s = map ?e [0 ..< k]"
    obtain self fs where s: "s = (self, fs)" by (cases s)
    from k have "?combos ! k \<in> set ?combos" by simp
    then have len: "length (?combos ! k) = length ?names" by (simp add: length_combination)
    from good k have g: "case snd (seen k) of None \<Rightarrow> True | Some out \<Rightarrow> good_output out"
      by (simp add: good_seen_def list_all_iff)
    from sweep_step_file [where names = ?names and combinations = ?combos and i = k
        and seen = seen and str = str and top_indexes = ?top and ?index_1.0 = index_1
        and ?index_2.0 = index_2 and self = self and fs = fs, OF names len g]
    obtain self' where "?f k (self, fs) = Inr (self', fs @ [?e k])" by blast
    with inv s show "\<exists>s'. ?f k s = Inr s' \<and> snd s' = map ?e [0 ..< Suc k]" by simp
  qed
  then obtain s' where r: "fold_err ?f [0 ..< length ?combos] (new_model, []) = Inr s'"
    and n: "snd s' = map ?e [0 ..< length ?combos]" by blast
  obtain self fs where s': "s' = (self, fs)" by (cases s')
  from r n s' show ?thesis by (simp add: sweep_def Let_def)
qed

lemma expected_file_name:
  "\<exists>sa \<in> set file_suffixes.
     fst (expected_file str seen top_indexes index_1 index_2 names combinations i) =
       results_path index_1 index_2 i @ sa"
  by (simp add: expected_file_def file_suffixes_def split: option.splits)

lemma expected_file_outcome:
  "fst (expected_file str seen top_indexes index_1 index_2 names combinations i) =
     results_path index_1 index_2 i @ file_suffix (classify (fst (seen i)) (snd (seen i)))"
  by (simp add: expected_file_def file_suffix_def classify_def split: option.splits)

lemma all_params_dict_shape:
  assumes "all_params_dict index_1 index_2 = Inr table"
  shows "five_names (map fst table) \<and> map (\<lambda>p. length (snd p)) table = [1, 10, 5, 1, 1]"
  using assms
  by (auto simp: all_params_dict_def five_names_def split: sum.splits)

lemma all_params_dict_example:
  "all_params_dict 1 2 =
      Inr [(''tau_sat'', [200]),
           (''b'', [1 / 10, 2 / 10, 4 / 10, 8 / 10, 16 / 10, 32 / 10, 64 / 10,
                    128 / 10, 256 / 10, 512 / 10]),
           (''tau_0'', [50, 100, 200, 400, 800]),
           (''gamma_0'', [3333 / 10 ^ 8]),
           (''n'', [4])]"
  by code_simp

text \<open>
  Claim C7. The sweep enumerates the full Cartesian product of the domains, in the order
  of their declaration, and writes exactly one file for each combination: the files are
  as many as the product of the domain sizes, and no two names are equal; the
  combinations are all the choices of one value from each domain, and no two are equal
  when no domain repeats a value. The \<open>i\<close>-th file is named by the two indices, the
  ordinal \<open>i + 1\<close> padded with zeros to three digits and the ending of the outcome
  that the main thread finds for the \<open>i\<close>-th trial. It is the timeout marker when
  the thread is alive, the failed marker when \<open>model_output\<close> is \<open>None\<close>, both
  holding the header of the parameter names and the line of the values of the
  \<open>i\<close>-th combination, and otherwise the result file: the same columns followed by
  the rounded strain and stress samples and the start and end angles of the chosen
  grains, taken from the output that was read. The table of domains holds the five
  parameters of \<open>define_params\<close>, as the script's does, and the outputs read have
  a state in their history and a component in each strain and stress vector. With two
  values of \<open>b\<close>, three of \<open>tau_0\<close> and one of each other parameter, six files
  are written, and with the script's own table, of sizes 1, 10, 5, 1 and 1, fifty.
\<close>

theorem sweep_one_file_per_combination:
  assumes "five_names (map fst domains)"
    and "good_seen seen (length (itertools_product (map snd domains)))"
  shows "\<exists>self fs.
     sweep str seen weights index_1 index_2 domains = Inr (self, fs) \<and>
     length fs = length (itertools_product (map snd domains)) \<and>
     length fs = prod_list (map (\<lambda>p. length (snd p)) domains) \<and>
     set (itertools_product (map snd domains)) =
       {c. list_all2 (\<lambda>x xs. x \<in> set xs) c (map snd domains)} \<and>
     (list_all distinct (map snd domains) \<longrightarrow> distinct (itertools_product (map snd domains))) \<and>
     (\<forall>i < length fs.
        (\<exists>sa \<in> set file_suffixes.
           fst (fs ! i) =
             ''results/'' @ str_int index_1 @ ''_'' @ str_int index_2 @ ''_'' @
               zfill 3 (str_int (int i + 1)) @ sa) \<and>
        fst (fs ! i) =
          results_path index_1 index_2 i @ file_suffix (classify (fst (seen i)) (snd (seen i))) \<and>
        fs ! i = expected_file str seen (snd (get_top weights 10)) index_1 index_2
                   (map fst domains) (itertools_product (map snd domains)) i) \<and>
     distinct (map fst fs)"
proof -
  let ?combos = "itertools_product (map snd domains)"
  let ?e = "expected_file str seen (snd (get_top weights 10)) index_1 index_2
              (map fst domains) ?combos"
  from sweep_files [where domains = domains and seen = seen and str = str and weights = weights
      and ?index_1.0 = index_1 and ?index_2.0 = index_2, OF assms]
  obtain self where run: "sweep str seen weights index_1 index_2 domains =
      Inr (self, map ?e [0 ..< length ?combos])"
    by blast
  define fs where "fs = map ?e [0 ..< length ?combos]"
  have len: "length fs = length ?combos" by (simp add: fs_def)
  have count: "length fs = prod_list (map (\<lambda>p. length (snd p)) domains)"
    by (simp add: len length_itertools_product comp_def)
  have nth: "fs ! i = ?e i" if "i < length fs" for i
    using that by (simp add: fs_def)
  have name: "\<exists>sa \<in> set file_suffixes. fst (fs ! i) = results_path index_1 index_2 i @ sa"
    if "i < length fs" for i
    unfolding nth [OF that] by (rule expected_file_name)
  have files: "\<forall>i < length fs.
        (\<exists>sa \<in> set file_suffixes.
           fst (fs ! i) =
             ''results/'' @ str_int index_1 @ ''_'' @ str_int index_2 @ ''_'' @
               zfill 3 (str_int (int i + 1)) @ sa) \<and>
        fst (fs ! i) =
          results_path index_1 index_2 i @ file_suffix (classify (fst (seen i)) (snd (seen i))) \<and>
        fs ! i = ?e i"
    using name nth by (simp add: results_path_def index_str_def expected_file_outcome)
  have distinct: "distinct (map fst fs)"
    unfolding distinct_conv_nth
  proof (intro allI impI)
    fix i j assume i: "i < length (map fst fs)" and j: "j < length (map fst fs)" and ne: "i \<noteq> j"
    from name [of i] name [of j] i j obtain sa sb where
      "sa \<in> set file_suffixes" "fst (fs ! i) = results_path index_1 index_2 i @ sa"
      "sb \<in> set file_suffixes" "fst (fs ! j) = results_path index_1 index_2 j @ sb"
      by auto
    with ne results_path_inj have "fst (fs ! i) \<noteq> fst (fs ! j)" by metis
    with i j show "map fst fs ! i \<noteq> map fst fs ! j" by simp
  qed
  have dist: "list_all distinct (map snd domains) \<longrightarrow> distinct ?combos"
    using distinct_itertools_product [of "map snd domains"] by (simp add: list_all_iff)
  from run have "sweep str seen weights index_1 index_2 domains = Inr (self, fs)"
    by (simp add: fs_def)
  with len count files dist distinct set_itertools_product show ?thesis by blast
qed

theorem sweep_one_file_per_combination_witness:
  "five_names (map fst demo_domains) \<and>
   good_seen demo_seen (length (itertools_product (map snd demo_domains))) \<and>
   map (\<lambda>p. length (snd p)) demo_domains = [1, 2, 3, 1, 1] \<and>
   list_all distinct (map snd demo_domains) \<and>
   (\<exists>self fs.
      sweep demo_str demo_seen [1, 3, 2 :: int] 1 2 demo_domains = Inr (self, fs) \<and>
      length fs = 6 \<and> distinct (map fst fs) \<and>
      distinct (itertools_product (map snd demo_domains)) \<and>
      fs ! 0 = (''results/1_2_001.csv'',
                file_of_lines
                  [''tau_sat,b,tau_0,gamma_0,n,strain,stress,phi_1_start,phi_1_end,Phi_start,Phi_end,phi_2_start,phi_2_end'',
                   ''50,1,50,3,16,0,0,1,11,1,21,1,1'',
                   '',,,,,3,250,2,12,2,22,2,2'',
                   '',,,,,,,0,10,0,20,0,0'']) \<and>
      fs ! 1 = (''results/1_2_002_failed.csv'',
                file_of_lines [''tau_sat,b,tau_0,gamma_0,n'', ''50,1,100,3,16'']) \<and>
      fs ! 4 = (''results/1_2_005_timeout.csv'',
                file_of_lines [''tau_sat,b,tau_0,gamma_0,n'', ''50,2,100,3,16''])) \<and>
   map_sum id (\<lambda>r. map fst (snd r)) (sweep demo_str demo_seen [1, 3, 2 :: int] 1 2 demo_domains) =
     Inr [''results/1_2_001.csv'', ''results/1_2_002_failed.csv'', ''results/1_2_003.csv'',
          ''results/1_2_004.csv'', ''results/1_2_005_timeout.csv'', ''results/1_2_006.csv''] \<and>
   (\<exists>table self fs.
      all_params_dict 1 2 = Inr table \<and>
      five_names (map fst table) \<and>
      sweep demo_str (\<lambda>i. (False, None :: nat cp_output option)) [1, 3, 2 :: int] 1 2 table =
        Inr (self, fs) \<and>
      length fs = 50 \<and> distinct (map fst fs))"
proof -
  have h1: "five_names (map fst demo_domains)"
    by (simp add: five_names_def demo_domains_def)
  have n6: "length (itertools_product (map snd demo_domains)) = 6"
    by (simp add: demo_domains_def)
  have h2: "good_seen demo_seen (length (itertools_product (map snd demo_domains)))"
    unfolding n6 by code_simp
  have sizes: "map (\<lambda>p. length (snd p)) demo_domains = [1, 2, 3, 1, 1]"
    by (simp add: demo_domains_def)
  have h3: "list_all distinct (map snd demo_domains)"
    by (simp add: demo_domains_def)
  have names: "map_sum id (\<lambda>r. map fst (snd r))
     (sweep demo_str demo_seen [1, 3, 2 :: int] 1 2 demo_domains) =
     Inr [''results/1_2_001.csv'', ''results/1_2_002_failed.csv'', ''results/1_2_003.csv'',
          ''results/1_2_004.csv'', ''results/1_2_005_timeout.csv'', ''results/1_2_006.csv'']"
    by code_simp
  have e0: "expected_file demo_str demo_seen (snd (get_top [1, 3, 2 :: int] 10)) 1 2
              (map fst demo_domains) (itertools_product (map snd demo_domains)) 0 =
            (''results/1_2_001.csv'',
                file_of_lines
                  [''tau_sat,b,tau_0,gamma_0,n,strain,stress,phi_1_start,phi_1_end,Phi_start,Phi_end,phi_2_start,phi_2_end'',
                   ''50,1,50,3,16,0,0,1,11,1,21,1,1'',
                   '',,,,,3,250,2,12,2,22,2,2'',
                   '',,,,,,,0,10,0,20,0,0''])"
    by code_simp
  have e1: "expected_file demo_str demo_seen (snd (get_top [1, 3, 2 :: int] 10)) 1 2
              (map fst demo_domains) (itertools_product (map snd demo_domains)) 1 =
            (''results/1_2_002_failed.csv'',
                file_of_lines [''tau_sat,b,tau_0,gamma_0,n'', ''50,1,100,3,16''])"
    by code_simp
  have e4: "expected_file demo_str demo_seen (snd (get_top [1, 3, 2 :: int] 10)) 1 2
              (map fst demo_domains) (itertools_product (map snd demo_domains)) 4 =
            (''results/1_2_005_timeout.csv'',
                file_of_lines [''tau_sat,b,tau_0,gamma_0,n'', ''50,2,100,3,16''])"
    by code_simp
  from sweep_one_file_per_combination [where domains = demo_domains and seen = demo_seen
      and str = demo_str and weights = "[1, 3, 2 :: int]" and ?index_1.0 = 1
      and ?index_2.0 = 2, OF h1 h2]
  obtain self fs where
    run: "sweep demo_str demo_seen [1, 3, 2 :: int] 1 2 demo_domains = Inr (self, fs)"
    and len: "length fs = prod_list (map (\<lambda>p. length (snd p)) demo_domains)"
    and d: "distinct (map fst fs)"
    and dc: "list_all distinct (map snd demo_domains) \<longrightarrow>
       distinct (itertools_product (map snd demo_domains))"
    and ex: "\<forall>i < length fs.
        fs ! i = expected_file demo_str demo_seen (snd (get_top [1, 3, 2 :: int] 10)) 1 2
                   (map fst demo_domains) (itertools_product (map snd demo_domains)) i"
    by blast
  from len have l6: "length fs = 6" unfolding sizes by simp
  from ex l6 have "fs ! 0 = expected_file demo_str demo_seen (snd (get_top [1, 3, 2 :: int] 10)) 1 2
                   (map fst demo_domains) (itertools_product (map snd demo_domains)) 0"
    "fs ! 1 = expected_file demo_str demo_seen (snd (get_top [1, 3, 2 :: int] 10)) 1 2
                   (map fst demo_domains) (itertools_product (map snd demo_domains)) 1"
    "fs ! 4 = expected_file demo_str demo_seen (snd (get_top [1, 3, 2 :: int] 10)) 1 2
                   (map fst demo_domains) (itertools_product (map snd demo_domains)) 4"
    by simp_all
  with run l6 d dc h3 have six: "\<exists>self fs.
      sweep demo_str demo_seen [1, 3, 2 :: int] 1 2 demo_domains = Inr (self, fs) \<and>
      length fs = 6 \<and> distinct (map fst fs) \<and>
      distinct (itertools_product (map snd demo_domains)) \<and>
      fs ! 0 = (''results/1_2_001.csv'',
                file_of_lines
                  [''tau_sat,b,tau_0,gamma_0,n,strain,stress,phi_1_start,phi_1_end,Phi_start,Phi_end,phi_2_start,phi_2_end'',
                   ''50,1,50,3,16,0,0,1,11,1,21,1,1'',
                   '',,,,,3,250,2,12,2,22,2,2'',
                   '',,,,,,,0,10,0,20,0,0'']) \<and>
      fs ! 1 = (''results/1_2_002_failed.csv'',
                file_of_lines [''tau_sat,b,tau_0,gamma_0,n'', ''50,1,100,3,16'']) \<and>
      fs ! 4 = (''results/1_2_005_timeout.csv'',
                file_of_lines [''tau_sat,b,tau_0,gamma_0,n'', ''50,2,100,3,16''])"
    unfolding e0 e1 e4 by blast
  obtain table where table: "all_params_dict 1 2 = Inr table"
    using all_params_dict_example by blast
  from all_params_dict_shape [OF table]
  have k1: "five_names (map fst table)"
    and ksizes: "map (\<lambda>p. length (snd p)) table = [1, 10, 5, 1, 1]" by auto
  have k2: "good_seen (\<lambda>i. (False, None :: nat cp_output option))
              (length (itertools_product (map snd table)))"
    by (simp add: good_seen_def list_all_iff)
  from sweep_one_file_per_combination [where domains = table
      and seen = "\<lambda>i. (False, None :: nat cp_output option)"
      and str = demo_str and weights = "[1, 3, 2 :: int]" and ?index_1.0 = 1
      and ?index_2.0 = 2, OF k1 k2]
  obtain self' fs' where
    "sweep demo_str (\<lambda>i. (False, None :: nat cp_output option)) [1, 3, 2 :: int] 1 2 table =
        Inr (self', fs')"
    "length fs' = prod_list (map (\<lambda>p. length (snd p)) table)" "distinct (map fst fs')"
    by blast
  then have "\<exists>self fs.
      sweep demo_str (\<lambda>i. (False, None :: nat cp_output option)) [1, 3, 2 :: int] 1 2 table =
        Inr (self, fs) \<and>
      length fs = 50 \<and> distinct (map fst fs)"
    unfolding ksizes by simp
  with table k1 have script: "\<exists>table self fs.
      all_params_dict 1 2 = Inr table \<and>
      five_names (map fst table) \<and>
      sweep demo_str (\<lambda>i. (False, None :: nat cp_output option)) [1, 3, 2 :: int] 1 2 table =
        Inr (self, fs) \<and>
      length fs = 50 \<and> distinct (map fst fs)"
    by blast
  from h1 h2 h3 sizes six names script show ?thesis by blast
qed

section \<open>Properties of the interleaved sweep\<close>

lemma seq_model_Suc:
  "i < length combinations \<Longrightarrow>
   seq_model physics combinations (Suc i) =
     run_cp physics (apply_params (seq_model physics combinations i) (combinations ! i))"
  by (simp add: seq_model_def take_Suc_conv_app_nth)

lemma run_cp_output: "self\<lparr>model_output := model_output (run_cp physics self)\<rparr> = run_cp physics self"
  by (simp add: run_cp_def split: sum.splits)

lemma own_outcome_eq:
  "i < length combinations \<Longrightarrow>
   own_outcome physics combinations i =
     classify False (get_results (seq_model physics combinations (Suc i)))"
  by (simp add: own_outcome_def undisturbed_def seq_model_Suc)

lemma idle_not_in_flight: "\<not> in_flight (replicate i Finished)"
  by (simp add: in_flight_def list_ex_iff)

lemma current_worker:
  assumes "j < length (replicate i Finished @ [cur])" "(replicate i Finished @ [cur]) ! j \<noteq> Finished"
  shows "j = i \<and> cur = (replicate i Finished @ [cur]) ! j"
  using assms by (cases "j < i") (auto simp: nth_append less_Suc_eq)

lemma main_step_preserves:
  assumes inv: "in_sequence physics combinations w"
    and ex: "main_step combinations w = Some w'"
  shows "in_sequence physics combinations w'"
proof (cases "main_at w")
  case (AtDefine i)
  with inv have nr: "\<not> raced w" and sh: "shared w = seq_model physics combinations i"
    and ws: "workers w = replicate i Finished"
    and rc: "recorded w = map (own_outcome physics combinations) [0 ..< i]"
    by (simp_all add: in_sequence_def)
  from ex AtDefine have i: "i < length combinations"
    by (simp add: main_step_def split: if_splits)
  from ex AtDefine i have w': "w' = w\<lparr>shared := apply_params (shared w) (combinations ! i),
      main_at := AtStart i, raced := (raced w \<or> in_flight (workers w))\<rparr>"
    by (simp add: main_step_def)
  have "\<not> in_flight (workers w)" unfolding ws by (rule idle_not_in_flight)
  with nr sh ws rc i show ?thesis by (simp add: w' in_sequence_def)
next
  case (AtStart i)
  with inv have nr: "\<not> raced w" and i: "i < length combinations"
    and sh: "shared w = apply_params (seq_model physics combinations i) (combinations ! i)"
    and ws: "workers w = replicate i Finished"
    and rc: "recorded w = map (own_outcome physics combinations) [0 ..< i]"
    by (simp_all add: in_sequence_def)
  from ex AtStart have w': "w' = w\<lparr>workers := workers w @ [Started], main_at := AtJoin i\<rparr>"
    by (simp add: main_step_def)
  from ws nr i sh rc show ?thesis
    by (simp add: w' in_sequence_def)
next
  case (AtJoin i)
  from ex AtJoin have fin: "last (workers w) = Finished" and w': "w' = w\<lparr>main_at := AtCheck i\<rparr>"
    by (simp_all add: main_step_def split: if_splits)
  from inv AtJoin have nr: "\<not> raced w" and i: "i < length combinations"
    and rc: "recorded w = map (own_outcome physics combinations) [0 ..< i]"
    by (simp_all add: in_sequence_def)
  from inv AtJoin fin have "workers w = replicate i Finished @ [Finished]"
    "shared w = seq_model physics combinations (Suc i)"
    by (auto simp: in_sequence_def)
  with nr i rc show ?thesis by (simp add: w' in_sequence_def)
next
  case (AtCheck i)
  with inv have nr: "\<not> raced w" and i: "i < length combinations"
    and rc: "recorded w = map (own_outcome physics combinations) [0 ..< i]"
    and ws: "workers w = replicate i Finished @ [Finished]"
    and sh: "shared w = seq_model physics combinations (Suc i)"
    by (simp_all add: in_sequence_def)
  from ex AtCheck have w': "w' = w\<lparr>recorded := recorded w @
      [classify (last (workers w) \<noteq> Finished) (get_results (shared w))],
      main_at := AtDefine (Suc i)\<rparr>"
    by (simp add: main_step_def)
  have "classify (last (workers w) \<noteq> Finished) (get_results (shared w)) =
        own_outcome physics combinations i"
    by (simp add: ws sh own_outcome_eq [OF i])
  moreover have "workers w = replicate (Suc i) Finished"
    unfolding ws by (simp add: replicate_append_same)
  ultimately show ?thesis using nr i rc sh
    by (simp add: w' in_sequence_def)
qed

lemma worker_step_position:
  assumes inv: "in_sequence physics combinations w"
    and j: "j < length (workers w)" and st: "workers w ! j \<noteq> Finished"
  shows "\<exists>i. main_at w = AtJoin i \<and> j = i \<and> i < length combinations \<and>
             workers w = replicate i Finished @ [workers w ! j] \<and>
             shared w = apply_params (seq_model physics combinations i) (combinations ! i) \<and>
             (workers w ! j = Started \<or> workers w ! j = Computing (shared w)) \<and>
             recorded w = map (own_outcome physics combinations) [0 ..< i]"
proof (cases "main_at w")
  case (AtDefine i)
  with inv have ws: "workers w = replicate i Finished" by (simp add: in_sequence_def)
  with j st show ?thesis by simp
next
  case (AtStart i)
  with inv have ws: "workers w = replicate i Finished" by (simp add: in_sequence_def)
  with j st show ?thesis by simp
next
  case (AtCheck i)
  with inv have ws: "workers w = replicate (Suc i) Finished"
    by (simp add: in_sequence_def replicate_append_same)
  with j have "workers w ! j = Finished" by (metis length_replicate nth_replicate)
  with st show ?thesis by simp
next
  case (AtJoin i)
  from inv AtJoin have i: "i < length combinations"
    and rc: "recorded w = map (own_outcome physics combinations) [0 ..< i]"
    by (simp_all add: in_sequence_def)
  let ?ap = "apply_params (seq_model physics combinations i) (combinations ! i)"
  from inv AtJoin obtain cur where ws: "workers w = replicate i Finished @ [cur]"
    and cur: "cur = Started \<and> shared w = ?ap \<or> cur = Computing ?ap \<and> shared w = ?ap \<or>
              cur = Finished"
    by (auto simp: in_sequence_def)
  from current_worker [of j i cur] j st ws have ji: "j = i" and c: "cur = workers w ! j" by auto
  from cur st c have "shared w = ?ap" "workers w ! j = Started \<or> workers w ! j = Computing (shared w)"
    by auto
  with AtJoin i rc ji ws c show ?thesis by auto
qed

lemma worker_read_preserves:
  assumes inv: "in_sequence physics combinations w"
    and j: "j < length (workers w)" and st: "workers w ! j = Started"
  shows "in_sequence physics combinations (w\<lparr>workers := (workers w)[j := Computing (shared w)]\<rparr>)"
proof -
  from st have "workers w ! j \<noteq> Finished" by simp
  from worker_step_position [OF inv j this] obtain i where
    at: "main_at w = AtJoin i" and ji: "j = i" and i: "i < length combinations"
    and ws: "workers w = replicate i Finished @ [workers w ! j]"
    and sh: "shared w = apply_params (seq_model physics combinations i) (combinations ! i)"
    and rc: "recorded w = map (own_outcome physics combinations) [0 ..< i]"
    by blast
  have "(workers w)[j := Computing (shared w)] = replicate i Finished @ [Computing (shared w)]"
    by (subst ws) (simp add: ji list_update_append)
  with inv at i sh rc show ?thesis by (simp add: in_sequence_def)
qed

lemma worker_write_preserves:
  assumes inv: "in_sequence physics combinations w"
    and j: "j < length (workers w)" and st: "workers w ! j = Computing seen"
  shows "in_sequence physics combinations
           (w\<lparr>shared := (shared w)\<lparr>model_output := model_output (run_cp physics seen)\<rparr>,
              workers := (workers w)[j := Finished]\<rparr>)"
proof -
  from st have "workers w ! j \<noteq> Finished" by simp
  from worker_step_position [OF inv j this] st obtain i where
    at: "main_at w = AtJoin i" and ji: "j = i" and i: "i < length combinations"
    and ws: "workers w = replicate i Finished @ [workers w ! j]"
    and sh: "shared w = apply_params (seq_model physics combinations i) (combinations ! i)"
    and seen: "seen = shared w"
    and rc: "recorded w = map (own_outcome physics combinations) [0 ..< i]"
    by auto
  have 1: "(workers w)[j := Finished] = replicate i Finished @ [Finished]"
    by (subst ws) (simp add: ji list_update_append)
  have 2: "(shared w)\<lparr>model_output := model_output (run_cp physics seen)\<rparr> =
          seq_model physics combinations (Suc i)"
    unfolding seen run_cp_output by (simp add: sh seq_model_Suc [OF i])
  from inv at i rc show ?thesis unfolding 1 2 by (simp add: in_sequence_def)
qed

lemma exec_preserves:
  assumes inv: "in_sequence physics combinations w" and a: "a \<noteq> Deadline"
    and ex: "exec physics combinations a w = Some w'"
  shows "in_sequence physics combinations w'"
proof (cases a)
  case MainStep
  with ex have "main_step combinations w = Some w'" by (simp add: exec_def)
  with inv show ?thesis by (rule main_step_preserves)
next
  case Deadline
  with a show ?thesis by simp
next
  case (WorkerRead j)
  with ex have j: "j < length (workers w)" and st: "workers w ! j = Started"
    and w': "w' = w\<lparr>workers := (workers w)[j := Computing (shared w)]\<rparr>"
    by (simp_all add: exec_def split: if_splits)
  show ?thesis unfolding w' by (rule worker_read_preserves [OF inv j st])
next
  case (WorkerWrite j)
  with ex have j: "j < length (workers w)" by (simp add: exec_def split: if_splits)
  from ex WorkerWrite j obtain seen where st: "workers w ! j = Computing seen"
    and w': "w' = w\<lparr>shared := (shared w)\<lparr>model_output := model_output (run_cp physics seen)\<rparr>,
              workers := (workers w)[j := Finished]\<rparr>"
    by (auto simp: exec_def split: worker.splits)
  show ?thesis unfolding w' by (rule worker_write_preserves [OF inv j st])
qed

lemma run_preserves:
  "in_sequence physics combinations w \<Longrightarrow> Deadline \<notin> set schedule \<Longrightarrow>
   run physics combinations schedule w = Some w' \<Longrightarrow> in_sequence physics combinations w'"
proof (induction schedule arbitrary: w)
  case Nil
  then show ?case by simp
next
  case (Cons a schedule)
  from Cons.prems(3) obtain w1 where 1: "exec physics combinations a w = Some w1"
    and 2: "run physics combinations schedule w1 = Some w'"
    by (auto split: option.splits)
  from Cons.prems(2) have "a \<noteq> Deadline" by auto
  from exec_preserves [OF Cons.prems(1) this 1] have "in_sequence physics combinations w1" .
  from Cons.IH [OF this _ 2] Cons.prems(2) show ?case by simp
qed

lemma in_sequence_start: "in_sequence physics combinations start_world"
  by (simp add: in_sequence_def start_world_def seq_model_def)

lemma in_sequence_recorded:
  assumes "in_sequence physics combinations w"
  shows "\<not> raced w \<and> (\<exists>i \<le> length combinations.
           recorded w = map (own_outcome physics combinations) [0 ..< i])"
proof (cases "main_at w")
  case (AtDefine i)
  with assms show ?thesis by (auto simp: in_sequence_def)
next
  case (AtStart i)
  with assms show ?thesis by (auto simp: in_sequence_def intro: less_imp_le)
next
  case (AtJoin i)
  with assms show ?thesis by (auto simp: in_sequence_def intro: less_imp_le)
next
  case (AtCheck i)
  with assms show ?thesis by (auto simp: in_sequence_def intro: less_imp_le)
qed

text \<open>
  Claim C9 says that the result of a worker detached at its deadline is discarded and
  never influences the recorded outcome of a later trial, and that the parameter fields
  are never written while a worker started earlier is still in flight. Neither holds
  once a trial has timed out: the loop goes on to the next \<open>define_params\<close> while
  the first worker is in flight, and that worker's late write to \<open>model_output\<close> is
  what the second trial records, a success, although the second trial's own physics
  call raised.
\<close>

theorem detached_worker_interferes:
  "map_option raced (run demo_physics two_trials late_schedule start_world) = Some True \<and>
   map_option recorded (run demo_physics two_trials late_schedule start_world) =
     Some [TimedOut, Success [50, 50]] \<and>
   undisturbed demo_physics (apply_params new_model (two_trials ! 1)) = Failed \<and>
   undisturbed demo_physics (apply_params new_model (two_trials ! 0)) = Success [50, 50]"
  by (simp add: late_schedule_def two_trials_def start_world_def exec_def main_step_def
      in_flight_def apply_params_def define_params_def new_model_def demo_physics_def
      run_cp_def classify_def get_results_def undisturbed_def)

text \<open>
  Claim C9, amended: as long as every \<open>join\<close> returns because its worker has
  finished, so that no deadline passes, \<open>define_params\<close> never runs while a worker
  is in flight, and every recorded outcome is the one of the trial's own worker.
\<close>

theorem sequence_without_timeouts:
  fixes physics :: "('p, 'r) model \<Rightarrow> 'e + 'r"
  assumes "Deadline \<notin> set schedule"
    and "run physics combinations schedule start_world = Some w"
  shows "\<not> raced w \<and> length (recorded w) \<le> length combinations \<and>
         (\<forall>i < length (recorded w). recorded w ! i = own_outcome physics combinations i)"
proof -
  from run_preserves [OF in_sequence_start assms] have "in_sequence physics combinations w" .
  from in_sequence_recorded [OF this] obtain i where nr: "\<not> raced w"
    and i: "i \<le> length combinations"
    and rc: "recorded w = map (own_outcome physics combinations) [0 ..< i]"
    by blast
  from nr i show ?thesis unfolding rc by simp
qed

theorem sequence_without_timeouts_witness:
  "Deadline \<notin> set calm_schedule \<and>
   map_option recorded (run demo_physics two_trials calm_schedule start_world) =
     Some [Success [50, 50], Failed] \<and>
   map_option raced (run demo_physics two_trials calm_schedule start_world) = Some False \<and>
   own_outcome demo_physics two_trials 0 = Success [50, 50] \<and>
   own_outcome demo_physics two_trials 1 = Failed"
proof -
  have h: "Deadline \<notin> set calm_schedule" by (simp add: calm_schedule_def)
  have r: "map_option recorded (run demo_physics two_trials calm_schedule start_world) =
     Some [Success [50, 50], Failed]"
    "map_option raced (run demo_physics two_trials calm_schedule start_world) = Some False"
    by (simp_all add: calm_schedule_def two_trials_def start_world_def exec_def main_step_def
      in_flight_def apply_params_def define_params_def new_model_def demo_physics_def
      run_cp_def classify_def get_results_def)
  then obtain w where w: "run demo_physics two_trials calm_schedule start_world = Some w"
    and rw: "recorded w = [Success [50, 50], Failed]"
    by auto
  from sequence_without_timeouts [OF h w] rw
  have "[Success [50, 50], Failed] ! 0 = own_outcome demo_physics two_trials 0"
    "[Success [50, 50], Failed] ! 1 = own_outcome demo_physics two_trials 1"
    by auto
  with h r show ?thesis by simp
qed

lemma stage_worker:
  assumes st: "at_stage physics self n w"
    and j: "j < length (workers w)" and nf: "workers w ! j \<noteq> Finished"
  shows "j = n \<and> shared w = self \<and> workers w = replicate n Finished @ [workers w ! j] \<and>
         (workers w ! j = Started \<or> workers w ! j = Computing self)"
proof -
  from st obtain cur where ws: "workers w = replicate n Finished @ [cur]"
    and cur: "cur = Started \<and> shared w = self \<or> cur = Computing self \<and> shared w = self \<or>
              cur = Finished"
    by (auto simp: at_stage_def)
  from current_worker [of j n cur] j nf ws have jn: "j = n" and c: "cur = workers w ! j" by auto
  from cur nf c have "shared w = self" "workers w ! j = Started \<or> workers w ! j = Computing self"
    by auto
  with jn ws c show ?thesis by auto
qed

lemma in_trial_main:
  assumes inv: "in_trial physics i self before n overdue w"
    and ex: "main_step combinations w = Some w'"
  shows "in_trial physics i self before n overdue w'"
proof (cases "main_at w")
  case (AtDefine j)
  from ex AtDefine have "main_at w' = AtStart j"
    by (auto simp: main_step_def split: if_splits)
  moreover from inv AtDefine have "i < j" by (auto simp: in_trial_def)
  ultimately show ?thesis by (simp add: in_trial_def)
next
  case (AtStart j)
  from ex AtStart have w': "w' = w\<lparr>workers := workers w @ [Started], main_at := AtJoin j\<rparr>"
    by (simp add: main_step_def)
  from inv AtStart show ?thesis
    by (auto simp: w' in_trial_def at_stage_def)
next
  case (AtJoin j)
  from ex AtJoin have fin: "last (workers w) = Finished" and w': "w' = w\<lparr>main_at := AtCheck j\<rparr>"
    by (simp_all add: main_step_def split: if_splits)
  from inv AtJoin fin show ?thesis
    by (auto simp: w' in_trial_def at_stage_def)
next
  case (AtCheck j)
  from ex AtCheck have w': "w' = w\<lparr>recorded := recorded w @
      [classify (last (workers w) \<noteq> Finished) (get_results (shared w))],
      main_at := AtDefine (Suc j)\<rparr>"
    by (simp add: main_step_def)
  show ?thesis
  proof (cases "i < j")
    case True
    then show ?thesis by (simp add: w' in_trial_def)
  next
    case False
    with inv AtCheck have ji: "j = i" and rc: "recorded w = before"
      and st: "at_stage physics self n w"
      and od: "overdue \<or> last (workers w) = Finished"
      by (auto simp: in_trial_def)
    show ?thesis
    proof (cases "last (workers w) = Finished")
      case True
      with st have "shared w = run_cp physics self" by (auto simp: at_stage_def)
      with True rc ji show ?thesis by (simp add: w' in_trial_def undisturbed_def)
    next
      case False
      with od have overdue by simp
      with False rc ji show ?thesis by (simp add: w' in_trial_def classify_def)
    qed
  qed
qed

lemma in_trial_worker:
  assumes inv: "in_trial physics i self before n overdue w"
    and j: "j < length (workers w)" and nf: "workers w ! j \<noteq> Finished"
    and pos: "main_at w' = main_at w" and rc: "recorded w' = recorded w"
    and step: "workers w ! j = Started \<and> workers w' = (workers w)[j := Computing (shared w)] \<and>
                 shared w' = shared w \<or>
               (\<exists>seen. workers w ! j = Computing seen \<and> workers w' = (workers w)[j := Finished] \<and>
                  shared w' = (shared w)\<lparr>model_output := model_output (run_cp physics seen)\<rparr>)"
  shows "in_trial physics i self before n overdue w'"
proof (cases "main_at w")
  case (AtDefine k)
  with inv pos rc show ?thesis by (simp add: in_trial_def)
next
  case (AtStart k)
  show ?thesis
  proof (cases "i < k")
    case True
    with AtStart pos show ?thesis by (simp add: in_trial_def)
  next
    case False
    with inv AtStart have "workers w = replicate n Finished" by (auto simp: in_trial_def)
    with j have "workers w ! j = Finished" by (metis length_replicate nth_replicate)
    with nf show ?thesis by simp
  qed
next
  case (AtJoin k)
  show ?thesis
  proof (cases "i < k")
    case True
    with AtJoin pos show ?thesis by (simp add: in_trial_def)
  next
    case False
    with inv AtJoin have ki: "k = i" and r: "recorded w = before"
      and st: "at_stage physics self n w" by (auto simp: in_trial_def)
    from stage_worker [OF st j nf] have jn: "j = n" and sh: "shared w = self"
      and ws: "workers w = replicate n Finished @ [workers w ! j]"
      and cur: "workers w ! j = Started \<or> workers w ! j = Computing self" by auto
    have upd: "(workers w)[j := x] = replicate n Finished @ [x]" for x
      by (subst ws) (simp add: jn list_update_append)
    from step cur sh have "at_stage physics self n w'"
      by (auto simp: at_stage_def upd run_cp_output)
    with AtJoin pos rc r ki show ?thesis by (simp add: in_trial_def)
  qed
next
  case (AtCheck k)
  show ?thesis
  proof (cases "i < k")
    case True
    with AtCheck pos show ?thesis by (simp add: in_trial_def)
  next
    case False
    with inv AtCheck have ki: "k = i" and r: "recorded w = before"
      and st: "at_stage physics self n w"
      and od: "overdue \<or> last (workers w) = Finished" by (auto simp: in_trial_def)
    from stage_worker [OF st j nf] have jn: "j = n" and sh: "shared w = self"
      and ws: "workers w = replicate n Finished @ [workers w ! j]"
      and cur: "workers w ! j = Started \<or> workers w ! j = Computing self" by auto
    have upd: "(workers w)[j := x] = replicate n Finished @ [x]" for x
      by (subst ws) (simp add: jn list_update_append)
    have "last (workers w) = workers w ! j" by (subst ws) simp
    with od nf have overdue by auto
    moreover from step cur sh have "at_stage physics self n w'"
      by (auto simp: at_stage_def upd run_cp_output)
    ultimately show ?thesis using AtCheck pos rc r ki by (simp add: in_trial_def)
  qed
qed

lemma in_trial_overdue:
  "in_trial physics i self before n overdue w \<Longrightarrow> in_trial physics i self before n True w"
  by (auto simp: in_trial_def split: position.splits)

lemma in_trial_exec:
  assumes inv: "in_trial physics i self before n overdue w"
    and ex: "exec physics combinations a w = Some w'"
  shows "in_trial physics i self before n (overdue \<or> a = Deadline) w'"
proof (cases a)
  case MainStep
  with ex have "main_step combinations w = Some w'" by (simp add: exec_def)
  from in_trial_main [OF inv this] MainStep show ?thesis by simp
next
  case Deadline
  with ex obtain k where at: "main_at w = AtJoin k" and w': "w' = w\<lparr>main_at := AtCheck k\<rparr>"
    by (auto simp: exec_def split: position.splits if_splits)
  from inv at Deadline show ?thesis by (auto simp: w' in_trial_def at_stage_def)
next
  case (WorkerRead j)
  with ex have j: "j < length (workers w)" and st: "workers w ! j = Started"
    and w': "w' = w\<lparr>workers := (workers w)[j := Computing (shared w)]\<rparr>"
    by (simp_all add: exec_def split: if_splits)
  from st have nf: "workers w ! j \<noteq> Finished" by simp
  have "in_trial physics i self before n overdue w'"
    by (rule in_trial_worker [OF inv j nf]) (simp_all add: w' st)
  with WorkerRead show ?thesis by simp
next
  case (WorkerWrite j)
  with ex have j: "j < length (workers w)" by (simp add: exec_def split: if_splits)
  from ex WorkerWrite j obtain seen where st: "workers w ! j = Computing seen"
    and w': "w' = w\<lparr>shared := (shared w)\<lparr>model_output := model_output (run_cp physics seen)\<rparr>,
              workers := (workers w)[j := Finished]\<rparr>"
    by (auto simp: exec_def split: worker.splits)
  from st have nf: "workers w ! j \<noteq> Finished" by simp
  have "in_trial physics i self before n overdue w'"
    by (rule in_trial_worker [OF inv j nf]) (simp_all add: w' st)
  with WorkerWrite show ?thesis by simp
qed

lemma in_trial_run:
  "in_trial physics i self before n overdue w \<Longrightarrow>
   run physics combinations schedule w = Some w' \<Longrightarrow>
   in_trial physics i self before n (overdue \<or> Deadline \<in> set schedule) w'"
proof (induction schedule arbitrary: w overdue)
  case Nil
  then show ?case by simp
next
  case (Cons a schedule)
  from Cons.prems(2) obtain w1 where 1: "exec physics combinations a w = Some w1"
    and 2: "run physics combinations schedule w1 = Some w'"
    by (auto split: option.splits)
  from in_trial_exec [OF Cons.prems(1) 1]
  have "in_trial physics i self before n (overdue \<or> a = Deadline) w1" .
  from Cons.IH [OF this 2] show ?case by (simp add: disj_assoc eq_commute [of a])
qed

lemma idle_workers: "\<not> in_flight ws \<Longrightarrow> ws = replicate (length ws) Finished"
  by (induction ws) (simp_all add: in_flight_def)

text \<open>
  Claim C8 says that a trial whose worker is still alive when the deadline elapses is
  recorded as timed out, and that otherwise the trial is recorded as failed if its
  physics call raised and as a success if not. The loop decides by \<open>is_alive()\<close>
  after \<open>join\<close> and by the \<open>model_output\<close> it then reads, so neither holds for
  every schedule. With the deadline of the first trial passed while its worker was
  computing, the worker can still finish before \<open>is_alive()\<close> is asked, and the
  trial is recorded as a success. And with the trials in the other order, the first
  raising and timed out, the second worker finishes in time with a result, the late
  worker of the first then stores \<open>None\<close>, and the second trial is recorded as
  failed although its physics call returned.
\<close>

theorem trial_misrecorded:
  "map_option main_at (run demo_physics two_trials (take 4 overdue_schedule) start_world) =
     Some (AtCheck 0) \<and>
   map_option workers (run demo_physics two_trials (take 4 overdue_schedule) start_world) =
     Some [Computing (define_params new_model 50 1 50 3 16)] \<and>
   map_option recorded (run demo_physics two_trials overdue_schedule start_world) =
     Some [Success [50, 50]] \<and>
   map_option recorded (run demo_physics (rev two_trials) late_schedule start_world) =
     Some [TimedOut, Failed] \<and>
   demo_physics (apply_params new_model (rev two_trials ! 1)) = Inr [50, 50]"
  by (simp add: overdue_schedule_def late_schedule_def two_trials_def start_world_def exec_def
      main_step_def in_flight_def apply_params_def define_params_def new_model_def
      demo_physics_def run_cp_def classify_def get_results_def)

text \<open>
  Claim C8, amended. A trial is recorded as timed out when its thread is still alive at
  \<open>is_alive()\<close> after \<open>join\<close>, and otherwise as failed when \<open>model_output\<close> is
  then \<open>None\<close> and as a success with the \<open>model_output\<close> read; \<open>run_cp\<close>
  catches every exception of the physics call and stores \<open>None\<close>, and stores the
  result of a call that returns. A trial that starts while no earlier worker is in
  flight records exactly one outcome, under every schedule: the timeout, and then the
  deadline has passed, or failed if its own physics call raised and the success with
  its result if not; when the deadline does not pass it is the latter.
\<close>

theorem trial_recorded_once:
  fixes physics :: "('p, 'r) model \<Rightarrow> 'e + 'r"
  assumes "main_at w = AtStart i" and "\<not> in_flight (workers w)"
    and "run physics combinations schedule w = Some w'" and "main_at w' = AtDefine (Suc i)"
  shows "(recorded w' = recorded w @ [TimedOut] \<and> Deadline \<in> set schedule \<or>
          recorded w' = recorded w @
            [case physics (shared w) of Inl e \<Rightarrow> Failed | Inr out \<Rightarrow> Success out]) \<and>
         get_results (run_cp physics self) =
           (case physics self of Inl e \<Rightarrow> None | Inr out \<Rightarrow> Some out) \<and>
         main_step combinations (v\<lparr>main_at := AtCheck i\<rparr>) =
           Some (v\<lparr>recorded := recorded v @
                      [if last (workers v) \<noteq> Finished then TimedOut
                       else case model_output (shared v) of
                              None \<Rightarrow> Failed | Some out \<Rightarrow> Success out],
                    main_at := AtDefine (Suc i)\<rparr>)"
proof -
  have start: "in_trial physics i (shared w) (recorded w) (length (workers w)) False w"
    using assms(1) idle_workers [OF assms(2)] by (simp add: in_trial_def)
  from in_trial_run [OF start assms(3)] assms(4)
  have "recorded w' = recorded w @ [undisturbed physics (shared w)] \<or>
        Deadline \<in> set schedule \<and> recorded w' = recorded w @ [TimedOut]"
    by (simp add: in_trial_def)
  moreover have "undisturbed physics (shared w) =
      (case physics (shared w) of Inl e \<Rightarrow> Failed | Inr out \<Rightarrow> Success out)"
    by (simp add: undisturbed_def classify_def get_results_def run_cp_def split: sum.splits)
  moreover have "get_results (run_cp physics self) =
           (case physics self of Inl e \<Rightarrow> None | Inr out \<Rightarrow> Some out)"
    by (simp add: get_results_def run_cp_def split: sum.splits)
  moreover have "main_step combinations (v\<lparr>main_at := AtCheck i\<rparr>) =
           Some (v\<lparr>recorded := recorded v @
                      [if last (workers v) \<noteq> Finished then TimedOut
                       else case model_output (shared v) of
                              None \<Rightarrow> Failed | Some out \<Rightarrow> Success out],
                    main_at := AtDefine (Suc i)\<rparr>)"
    by (simp add: main_step_def classify_def get_results_def)
  ultimately show ?thesis by auto
qed

theorem trial_recorded_once_witness:
  "main_at first_start = AtStart 0 \<and> \<not> in_flight (workers first_start) \<and>
   Deadline \<notin> set (in_time_trial 0) \<and>
   demo_physics (shared first_start) = Inr [50, 50] \<and>
   map_option main_at (run demo_physics two_trials (in_time_trial 0) first_start) =
     Some (AtDefine (Suc 0)) \<and>
   map_option recorded (run demo_physics two_trials (in_time_trial 0) first_start) =
     Some [Success [50, 50]] \<and>
   main_at second_start = AtStart 1 \<and> \<not> in_flight (workers second_start) \<and>
   Deadline \<notin> set (in_time_trial 1) \<and>
   demo_physics (shared second_start) = Inl () \<and>
   map_option main_at (run demo_physics two_trials (in_time_trial 1) second_start) =
     Some (AtDefine (Suc 1)) \<and>
   map_option recorded (run demo_physics two_trials (in_time_trial 1) second_start) =
     Some [Success [50, 50], Failed] \<and>
   Deadline \<in> set (timed_out_trial 1) \<and>
   map_option main_at (run demo_physics two_trials (timed_out_trial 1) second_start) =
     Some (AtDefine (Suc 1)) \<and>
   map_option recorded (run demo_physics two_trials (timed_out_trial 1) second_start) =
     Some [Success [50, 50], TimedOut]"
proof -
  have a1: "main_at first_start = AtStart 0" and a2: "\<not> in_flight (workers first_start)"
    and a3: "Deadline \<notin> set (in_time_trial 0)"
    and a4: "demo_physics (shared first_start) = Inr [50, 50]"
    by (simp_all add: first_start_def in_flight_def in_time_trial_def demo_physics_def
        define_params_def new_model_def)
  have b1: "main_at second_start = AtStart 1" and b2: "\<not> in_flight (workers second_start)"
    and b3: "Deadline \<notin> set (in_time_trial 1)"
    and b4: "demo_physics (shared second_start) = Inl ()"
    and b5: "Deadline \<in> set (timed_out_trial 1)"
    by (simp_all add: second_start_def in_flight_def in_time_trial_def timed_out_trial_def
        demo_physics_def define_params_def new_model_def)
  have ra: "map_option main_at (run demo_physics two_trials (in_time_trial 0) first_start) =
              Some (AtDefine (Suc 0))"
    and rb: "map_option main_at (run demo_physics two_trials (in_time_trial 1) second_start) =
              Some (AtDefine (Suc 1))"
    and rc: "map_option main_at (run demo_physics two_trials (timed_out_trial 1) second_start) =
              Some (AtDefine (Suc 1))"
    and rt: "map_option recorded (run demo_physics two_trials (timed_out_trial 1) second_start) =
              Some [Success [50, 50], TimedOut]"
    by (simp_all add: in_time_trial_def timed_out_trial_def two_trials_def first_start_def
        second_start_def exec_def main_step_def in_flight_def apply_params_def define_params_def
        new_model_def demo_physics_def run_cp_def classify_def get_results_def)
  from ra obtain wa where wa: "run demo_physics two_trials (in_time_trial 0) first_start = Some wa"
    and ma: "main_at wa = AtDefine (Suc 0)" by auto
  from rb obtain wb where wb: "run demo_physics two_trials (in_time_trial 1) second_start = Some wb"
    and mb: "main_at wb = AtDefine (Suc 1)" by auto
  from trial_recorded_once [OF a1 a2 wa ma, THEN conjunct1] a3 a4
  have "recorded wa = recorded first_start @ [Success [50, 50]]" by simp
  with wa have ea: "map_option recorded (run demo_physics two_trials (in_time_trial 0) first_start) =
     Some [Success [50, 50]]"
    by (simp add: first_start_def)
  from trial_recorded_once [OF b1 b2 wb mb, THEN conjunct1] b3 b4
  have "recorded wb = recorded second_start @ [Failed]" by simp
  with wb have eb: "map_option recorded (run demo_physics two_trials (in_time_trial 1) second_start) =
     Some [Success [50, 50], Failed]"
    by (simp add: second_start_def)
  from a1 a2 a3 a4 ra ea b1 b2 b3 b4 rb eb b5 rc rt show ?thesis by blast
qed

end
